theory Spec2Isabelle
  imports Main "HOL-Library.Sublist" "HOL-Library.Multiset"
begin

section \<open>Strings\<close>

text \<open>
  Go strings are byte sequences; they are modelled as \<^typ>\<open>string\<close> (a list of 8-bit
  characters).  The functions of package \<open>strings\<close> that the program calls are written
  out below.  \<open>strings.HasPrefix s p\<close> is \<^term>\<open>prefix p s\<close> and
  \<open>strings.HasSuffix s p\<close> is \<^term>\<open>suffix p s\<close>.
\<close>

fun stringsCompare :: "string \<Rightarrow> string \<Rightarrow> int" where
  "stringsCompare [] [] = 0"
| "stringsCompare [] (y # ys) = - 1"
| "stringsCompare (x # xs) [] = 1"
| "stringsCompare (x # xs) (y # ys) =
     (if (of_char x :: nat) < of_char y then - 1
      else if (of_char y :: nat) < of_char x then 1
      else stringsCompare xs ys)"

definition trimPrefix :: "string \<Rightarrow> string \<Rightarrow> string" where
  "trimPrefix s p = (if prefix p s then drop (length p) s else s)"

text \<open>\<open>strings.SplitN(s, ":", 3)\<close>: \<open>None\<close> stands for a result of fewer than three parts.\<close>

definition cutAt :: "char \<Rightarrow> string \<Rightarrow> (string \<times> string) option" where
  "cutAt c s = (if c \<in> set s then Some (takeWhile (\<lambda>d. d \<noteq> c) s, tl (dropWhile (\<lambda>d. d \<noteq> c) s))
                else None)"

definition splitN3 :: "string \<Rightarrow> (string \<times> string \<times> string) option" where
  "splitN3 arg =
     (case cutAt CHR '':'' arg of
        None \<Rightarrow> None
      | Some (p0, rest) \<Rightarrow>
          (case cutAt CHR '':'' rest of
             None \<Rightarrow> None
           | Some (p1, p2) \<Rightarrow> Some (p0, p1, p2)))"

text \<open>\<open>strings.SplitAfterN(s, "/", 2)[0]\<close>: the text up to and including the first slash,
  or all of \<open>s\<close> when it has none.\<close>

definition splitAfterFirst :: "string \<Rightarrow> string" where
  "splitAfterFirst s =
     (if CHR ''/'' \<in> set s then takeWhile (\<lambda>d. d \<noteq> CHR ''/'') s @ ''/'' else s)"


section \<open>Mount points\<close>

record MountPoint =
  Path :: string
  Bucket :: string
  Prefix :: string

datatype startup_error = Usage | InvalidMountPoint string

definition normalizePath :: "string \<Rightarrow> string" where
  "normalizePath p =
     (let p1 = (if prefix ''/'' p then p else ''/'' @ p)
      in if suffix ''/'' p1 then p1 else p1 @ ''/'')"

fun parseMountPoints :: "string list \<Rightarrow> startup_error + MountPoint list" where
  "parseMountPoints [] = Inr []"
| "parseMountPoints (arg # args) =
     (case splitN3 arg of
        None \<Rightarrow> Inl (InvalidMountPoint arg)
      | Some (p0, p1, p2) \<Rightarrow>
          (case parseMountPoints args of
             Inl e \<Rightarrow> Inl e
           | Inr ms \<Rightarrow> Inr (\<lparr>Path = normalizePath p0, Bucket = p1, Prefix = p2\<rparr> # ms)))"

text \<open>The comparison function handed to \<open>slices.SortFunc\<close>: longest path first.\<close>

definition mountCmp :: "MountPoint \<Rightarrow> MountPoint \<Rightarrow> int" where
  "mountCmp a b =
     (if length (Path a) \<noteq> length (Path b)
      then int (length (Path b)) - int (length (Path a))
      else stringsCompare (Path a) (Path b))"

text \<open>
  The insertion sort of package \<open>slices\<close> (\<open>insertionSortCmpFunc\<close>): each element moves
  left while it compares strictly less than its left neighbour.  \<open>insertBack\<close> works on
  the already sorted part in reverse, so that its head is the left neighbour.
  \<open>slices.SortFunc\<close> sorts a slice of at most twelve elements this way, and
  \<open>slices.SortStableFunc\<close> one of at most twenty.  Longer slices are sorted by other
  means (a quicksort; insertion-sorted blocks merged in place).  For a comparison that is
  a strict weak order, the stable sort yields the same list as the insertion sort, and
  the other one a sorted list that may differ in the order of elements that compare equal.
\<close>

fun insertBack :: "('a \<Rightarrow> 'a \<Rightarrow> int) \<Rightarrow> 'a \<Rightarrow> 'a list \<Rightarrow> 'a list" where
  "insertBack cmp x [] = [x]"
| "insertBack cmp x (y # ys) = (if cmp x y < 0 then y # insertBack cmp x ys else x # y # ys)"

definition insertionSortCmpFunc :: "('a \<Rightarrow> 'a \<Rightarrow> int) \<Rightarrow> 'a list \<Rightarrow> 'a list" where
  "insertionSortCmpFunc cmp xs = rev (foldl (\<lambda>acc x. insertBack cmp x acc) [] xs)"

definition slicesSortFunc :: "('a \<Rightarrow> 'a \<Rightarrow> int) \<Rightarrow> 'a list \<Rightarrow> 'a list" where
  "slicesSortFunc cmp xs = insertionSortCmpFunc cmp xs"

definition prepareMountPoints :: "string list \<Rightarrow> startup_error + MountPoint list" where
  "prepareMountPoints args =
     (if length args < 1 then Inl Usage
      else case parseMountPoints args of
             Inl e \<Rightarrow> Inl e
           | Inr ms \<Rightarrow> Inr (slicesSortFunc mountCmp ms))"

text \<open>The forward scan of the mount table; the result is the element found, if any.\<close>

fun findMountPoint :: "MountPoint list \<Rightarrow> string \<Rightarrow> MountPoint option" where
  "findMountPoint [] path = None"
| "findMountPoint (m # ms) path = (if prefix (Path m) path then Some m else findMountPoint ms path)"

section \<open>Directory listings\<close>

text \<open>
  Instants (\<open>time.Time\<close>) are integers: nanoseconds since the zero instant.  The
  attributes of a stored object are those fields of \<open>storage.ObjectAttrs\<close> that the
  program reads.  A Go map that the program only passes on is an association list.
\<close>

record ObjectAttrs =
  oaBucket :: string
  oaName :: string
  oaPrefix :: string
  oaSize :: int
  oaMD5 :: string
  oaContentType :: string
  oaContentEncoding :: string
  oaContentDisposition :: string
  oaCacheControl :: string
  oaMetadata :: "(string \<times> string) list"
  oaUpdated :: int
  oaEtag :: string

record Item =
  Name :: string
  Size :: "nat option"
  Fingerprint :: "string option"
  ContentType :: "string option"
  Timestamp :: "int option"
  Metadata :: "(string \<times> string) list"

text \<open>The command-line flags that the request handlers read.\<close>

record Flags =
  readme :: bool
  skipReadme :: bool
  versionSort :: bool

text \<open>
  What \<open>objects.Next()\<close> yields, call after call: the attributes of the next result,
  \<open>iterator.Done\<close>, or another error.
\<close>

datatype ObjectIterator = IterDone | IterError | IterNext ObjectAttrs ObjectIterator

text \<open>
  The storage client: listing a bucket under a prefix (with delimiter \<open>/\<close>), reading
  the attributes of an object, and opening a reader on an object, which gives the size
  the reader reports, the bytes it delivers and whether it then fails.  \<open>None\<close> is
  an error of the call.
\<close>

record Reader =
  rdSize :: int
  rdData :: string
  rdFails :: bool

record Backend =
  bucketObjects :: "string \<Rightarrow> string \<Rightarrow> ObjectIterator"
  objectAttrs :: "string \<Rightarrow> string \<Rightarrow> ObjectAttrs option"
  newReader :: "string \<Rightarrow> string \<Rightarrow> Reader option"

text \<open>
  \<open>strings.ToLower\<close> on the letters \<open>A\<close> to \<open>Z\<close>.  The program compares its result
  only with \<open>readme.md\<close>; no character outside ASCII is mapped to a letter of that word,
  so for this comparison the bytes outside ASCII can stay as they are.
\<close>

definition toLowerChar :: "char \<Rightarrow> char" where
  "toLowerChar c =
     (let n = (of_char c :: nat) in if 65 \<le> n \<and> n \<le> 90 then char_of (n + 32) else c)"

definition toLower :: "string \<Rightarrow> string" where
  "toLower s = map toLowerChar s"

text \<open>\<open>fmt.Sprintf("%x", bytes)\<close>: two lower-case hexadecimal digits for each byte.\<close>

definition hexDigit :: "nat \<Rightarrow> char" where
  "hexDigit n = ''0123456789abcdef'' ! (n mod 16)"

definition hexBytes :: "string \<Rightarrow> string" where
  "hexBytes bs = concat (map (\<lambda>c. [hexDigit (of_char c div 16), hexDigit (of_char c)]) bs)"

definition dirItem :: "string \<Rightarrow> Item" where
  "dirItem n = \<lparr>Name = n, Size = None, Fingerprint = None, ContentType = None,
                 Timestamp = None, Metadata = []\<rparr>"

definition objectItem :: "string \<Rightarrow> ObjectAttrs \<Rightarrow> Item" where
  "objectItem queryPrefix attrs =
     \<lparr>Name = trimPrefix (oaName attrs) queryPrefix,
      Size = Some (nat (oaSize attrs mod 2 ^ 64)),
      Fingerprint = Some (hexBytes (oaMD5 attrs)),
      ContentType = Some (oaContentType attrs),
      Timestamp = Some (oaUpdated attrs),
      Metadata = oaMetadata attrs\<rparr>"

definition linksFromMountPoints :: "MountPoint list \<Rightarrow> string \<Rightarrow> Item list" where
  "linksFromMountPoints mountPoints path =
     map (\<lambda>mountPoint. dirItem (splitAfterFirst (trimPrefix (Path mountPoint) path)))
       (filter (\<lambda>mountPoint. Path mountPoint \<noteq> path \<and> prefix path (Path mountPoint)) mountPoints)"

text \<open>
  The loop of \<open>linksFromStorage\<close>; the state is the pair of the links collected so
  far and the readme object seen last.  \<open>appendObject\<close> is the guarded
  \<open>append\<close> for an object result.
\<close>

definition appendObject :: "string \<Rightarrow> ObjectAttrs \<Rightarrow> Item list \<Rightarrow> Item list" where
  "appendObject queryPrefix attrs links =
     (if oaName attrs \<noteq> queryPrefix then links @ [objectItem queryPrefix attrs] else links)"

fun storageLoop :: "Flags \<Rightarrow> string \<Rightarrow> ObjectIterator \<Rightarrow> Item list \<times> ObjectAttrs option
    \<Rightarrow> Item list \<times> ObjectAttrs option" where
  "storageLoop flags queryPrefix IterDone (links, rdme) = (links, rdme)"
| "storageLoop flags queryPrefix IterError (links, rdme) = (links, rdme)"
| "storageLoop flags queryPrefix (IterNext attrs objects) (links, rdme) =
     (if oaName attrs \<noteq> [] then
        (if toLower (oaName attrs) = ''readme.md'' then
           (if skipReadme flags then storageLoop flags queryPrefix objects (links, Some attrs)
            else storageLoop flags queryPrefix objects
                   (appendObject queryPrefix attrs links, Some attrs))
         else storageLoop flags queryPrefix objects (appendObject queryPrefix attrs links, rdme))
      else if oaPrefix attrs \<noteq> [] then
        storageLoop flags queryPrefix objects
          (links @ [dirItem (trimPrefix (oaPrefix attrs) queryPrefix)], rdme)
      else storageLoop flags queryPrefix objects (links, rdme))"

definition queryPrefixOf :: "MountPoint \<Rightarrow> string \<Rightarrow> string" where
  "queryPrefixOf mountPoint path = Prefix mountPoint @ trimPrefix path (Path mountPoint)"

definition linksFromStorage :: "Flags \<Rightarrow> Backend \<Rightarrow> MountPoint list \<Rightarrow> string
    \<Rightarrow> Item list \<times> ObjectAttrs option" where
  "linksFromStorage flags backend mountPoints path =
     (case findMountPoint mountPoints path of
        None \<Rightarrow> ([], None)
      | Some mountPoint \<Rightarrow>
          storageLoop flags (queryPrefixOf mountPoint path)
            (bucketObjects backend (Bucket mountPoint) (queryPrefixOf mountPoint path))
            ([], None))"

text \<open>The results that an iterator yields before it ends.\<close>

fun iterResults :: "ObjectIterator \<Rightarrow> ObjectAttrs list" where
  "iterResults IterDone = []"
| "iterResults IterError = []"
| "iterResults (IterNext attrs objects) = attrs # iterResults objects"

fun iterOf :: "ObjectAttrs list \<Rightarrow> ObjectIterator" where
  "iterOf [] = IterDone"
| "iterOf (attrs # rest) = IterNext attrs (iterOf rest)"

text \<open>Sample attributes for concrete evaluations: an object and a common prefix.\<close>

definition sampleObject :: "string \<Rightarrow> string \<Rightarrow> int \<Rightarrow> ObjectAttrs" where
  "sampleObject name etag updated =
     \<lparr>oaBucket = ''bucket'', oaName = name, oaPrefix = [], oaSize = 10, oaMD5 = [],
      oaContentType = ''text/plain'', oaContentEncoding = [], oaContentDisposition = [],
      oaCacheControl = [], oaMetadata = [], oaUpdated = updated, oaEtag = etag\<rparr>"

definition samplePrefix :: "string \<Rightarrow> ObjectAttrs" where
  "samplePrefix p =
     \<lparr>oaBucket = [], oaName = [], oaPrefix = p, oaSize = 0, oaMD5 = [],
      oaContentType = [], oaContentEncoding = [], oaContentDisposition = [],
      oaCacheControl = [], oaMetadata = [], oaUpdated = 0, oaEtag = []\<rparr>"

definition sampleBackend :: "ObjectAttrs list \<Rightarrow> Backend" where
  "sampleBackend objs =
     \<lparr>bucketObjects = (\<lambda>bucket pfx. iterOf objs),
      objectAttrs = (\<lambda>bucket name. find (\<lambda>a. oaName a = name) objs),
      newReader = (\<lambda>bucket name.
         map_option (\<lambda>a. \<lparr>rdSize = oaSize a, rdData = ''0123456789'', rdFails = False\<rparr>)
           (find (\<lambda>a. oaName a = name) objs))\<rparr>"

text \<open>
  A second stand-in, which lists the way the storage service does.  A bucket is given by
  its objects.  A listing under a prefix with delimiter \<open>/\<close> yields the objects of the
  bucket whose names start with the prefix and have no \<open>/\<close> after it, and then one
  result for each common prefix: a name that has a \<open>/\<close> after the prefix, cut behind the
  first such \<open>/\<close>.
\<close>

definition listedObjects :: "ObjectAttrs list \<Rightarrow> string \<Rightarrow> string \<Rightarrow> ObjectAttrs list" where
  "listedObjects objs bucket pfx =
     filter (\<lambda>a. oaBucket a = bucket \<and> prefix pfx (oaName a) \<and>
                 CHR ''/'' \<notin> set (drop (length pfx) (oaName a))) objs"

definition listedPrefixes :: "ObjectAttrs list \<Rightarrow> string \<Rightarrow> string \<Rightarrow> string list" where
  "listedPrefixes objs bucket pfx =
     remdups (map (\<lambda>a. pfx @ takeWhile (\<lambda>c. c \<noteq> CHR ''/'') (drop (length pfx) (oaName a)) @ ''/'')
       (filter (\<lambda>a. oaBucket a = bucket \<and> prefix pfx (oaName a) \<and>
                    CHR ''/'' \<in> set (drop (length pfx) (oaName a))) objs))"

definition bucketBackend :: "ObjectAttrs list \<Rightarrow> Backend" where
  "bucketBackend objs =
     \<lparr>bucketObjects = (\<lambda>bucket pfx.
         iterOf (listedObjects objs bucket pfx @ map samplePrefix (listedPrefixes objs bucket pfx))),
      objectAttrs = (\<lambda>bucket name. find (\<lambda>a. oaBucket a = bucket \<and> oaName a = name) objs),
      newReader = (\<lambda>bucket name.
         map_option (\<lambda>a. \<lparr>rdSize = oaSize a, rdData = ''0123456789'', rdFails = False\<rparr>)
           (find (\<lambda>a. oaBucket a = bucket \<and> oaName a = name) objs))\<rparr>"

section \<open>Version extraction\<close>

text \<open>
  Regular expressions as far as \<open>versionRegexp\<close> uses them: character classes given
  by inclusive ranges, sequence, alternation and the greedy star; \<open>x+\<close> and \<open>x?\<close> are
  derived.  \<open>matches r s\<close> lists what is left of \<open>s\<close> after each way in which \<open>r\<close>
  can match at the start of \<open>s\<close>, in the order in which a backtracking search tries them:
  the first alternative before the second, one more repetition before stopping.  Package
  \<open>regexp\<close> returns the leftmost match, and among the matches that start there the one
  a backtracking search finds first, which is the head of this list.
\<close>

datatype regex =
    ReEps
  | ReClass "(char \<times> char) list"
  | ReSeq regex regex
  | ReAlt regex regex
  | ReStar regex

definition inClass :: "char \<Rightarrow> (char \<times> char) list \<Rightarrow> bool" where
  "inClass c ranges =
     list_ex (\<lambda>(lo, hi). (of_char lo :: nat) \<le> of_char c \<and> (of_char c :: nat) \<le> of_char hi) ranges"

fun matches :: "regex \<Rightarrow> string \<Rightarrow> string list" where
  "matches ReEps s = [s]"
| "matches (ReClass ranges) s =
     (case s of [] \<Rightarrow> [] | c # cs \<Rightarrow> if inClass c ranges then [cs] else [])"
| "matches (ReSeq r1 r2) s = concat (map (matches r2) (matches r1 s))"
| "matches (ReAlt r1 r2) s = matches r1 s @ matches r2 s"
| "matches (ReStar r) s =
     concat (map (\<lambda>s'. if length s' < length s then matches (ReStar r) s' else [])
               (matches r s)) @ [s]"

declare matches.simps(5) [simp del]

definition rePlus :: "regex \<Rightarrow> regex" where
  "rePlus r = ReSeq r (ReStar r)"

definition reOpt :: "regex \<Rightarrow> regex" where
  "reOpt r = ReAlt r ReEps"

definition reLit :: "char \<Rightarrow> regex" where
  "reLit c = ReClass [(c, c)]"

text \<open>\<open>FindStringIndex\<close>: the start and end offsets of the leftmost match.\<close>

fun findFrom :: "regex \<Rightarrow> nat \<Rightarrow> string \<Rightarrow> (nat \<times> nat) option" where
  "findFrom r i [] =
     (case matches r [] of rest # _ \<Rightarrow> Some (i, i) | [] \<Rightarrow> None)"
| "findFrom r i (c # cs) =
     (case matches r (c # cs) of
        rest # _ \<Rightarrow> Some (i, i + (length (c # cs) - length rest))
      | [] \<Rightarrow> findFrom r (Suc i) cs)"

definition findStringIndex :: "regex \<Rightarrow> string \<Rightarrow> (nat \<times> nat) option" where
  "findStringIndex r s = findFrom r 0 s"

text \<open>
  The pattern of \<open>versionRegexp\<close>, piece by piece:
  \<^verbatim>\<open>v?([0-9]+(\.[0-9]+)*)\<close>,
  \<^verbatim>\<open>(-([0-9]+[0-9A-Za-z\-~]*(\.[0-9A-Za-z\-~]+)*)|(-?([A-Za-z\-~]+[0-9A-Za-z\-~]*(\.[0-9A-Za-z\-~]+)*)))?\<close>,
  \<^verbatim>\<open>(\+([0-9A-Za-z\-~]+(\.[0-9A-Za-z\-~]+)*))?\<close>.
\<close>

definition reDigit :: regex where
  "reDigit = ReClass [(CHR ''0'', CHR ''9'')]"

definition reAlpha :: regex where
  "reAlpha = ReClass [(CHR ''A'', CHR ''Z''), (CHR ''a'', CHR ''z''), (CHR ''-'', CHR ''-''),
                    (CHR ''~'', CHR ''~'')]"

definition reAlnum :: regex where
  "reAlnum = ReClass [(CHR ''0'', CHR ''9''), (CHR ''A'', CHR ''Z''), (CHR ''a'', CHR ''z''),
                    (CHR ''-'', CHR ''-''), (CHR ''~'', CHR ''~'')]"

definition reDotted :: "regex \<Rightarrow> regex" where
  "reDotted r = ReStar (ReSeq (reLit CHR ''.'') (rePlus r))"

definition reCore :: regex where
  "reCore = ReSeq (rePlus reDigit) (reDotted reDigit)"

definition rePre :: regex where
  "rePre =
     ReAlt (ReSeq (reLit CHR ''-'') (ReSeq (rePlus reDigit) (ReSeq (ReStar reAlnum) (reDotted reAlnum))))
         (ReSeq (reOpt (reLit CHR ''-'')) (ReSeq (rePlus reAlpha) (ReSeq (ReStar reAlnum) (reDotted reAlnum))))"

definition reMeta :: regex where
  "reMeta = ReSeq (reLit CHR ''+'') (ReSeq (rePlus reAlnum) (reDotted reAlnum))"

definition versionRegexp :: regex where
  "versionRegexp = ReSeq (reOpt (reLit CHR ''v'')) (ReSeq reCore (ReSeq (reOpt rePre) (reOpt reMeta)))"

text \<open>
  The language of a regular expression: the texts that it matches as a whole, whatever the
  order in which a search tries them.  It serves to say which of the possible matches the
  search returns.
\<close>

inductive_set starLang :: "string set \<Rightarrow> string set" for A :: "string set" where
  starNil: "[] \<in> starLang A"
| starApp: "u \<in> A \<Longrightarrow> v \<in> starLang A \<Longrightarrow> u @ v \<in> starLang A"

fun lang :: "regex \<Rightarrow> string set" where
  "lang ReEps = {[]}"
| "lang (ReClass ranges) = {[c] | c. inClass c ranges}"
| "lang (ReSeq r1 r2) = {u @ v | u v. u \<in> lang r1 \<and> v \<in> lang r2}"
| "lang (ReAlt r1 r2) = lang r1 \<union> lang r2"
| "lang (ReStar r) = starLang (lang r)"

text \<open>
  Notions for the proof that the first match of \<open>versionRegexp\<close> is the longest one.
  \<open>remsOK A g ys\<close>: the list \<open>ys\<close> of remainders starts with \<open>g\<close>, and every other
  remainder in it has \<open>g\<close> as a suffix and starts with a character of \<open>A\<close>;
  \<open>minOK g ys\<close> keeps only that \<open>g\<close> is the head and a suffix of every remainder.
  \<open>tailEnd s\<close> is what is left of \<open>s\<close> after its longest start of the form
  \<^verbatim>\<open>[0-9A-Za-z\-~]*(\.[0-9A-Za-z\-~]+)*\<close>.
\<close>

definition remsOK :: "(char \<Rightarrow> bool) \<Rightarrow> string \<Rightarrow> string list \<Rightarrow> bool" where
  "remsOK A g ys \<longleftrightarrow>
     ys \<noteq> [] \<and> hd ys = g \<and> (\<forall>y\<in>set ys. y = g \<or> (y \<noteq> [] \<and> A (hd y) \<and> suffix g y))"

definition minOK :: "string \<Rightarrow> string list \<Rightarrow> bool" where
  "minOK g ys \<longleftrightarrow> ys \<noteq> [] \<and> hd ys = g \<and> (\<forall>y\<in>set ys. suffix g y)"

abbreviation (input) digitC :: "(char \<times> char) list" where
  "digitC \<equiv> [(CHR ''0'', CHR ''9'')]"

abbreviation (input) alphaC :: "(char \<times> char) list" where
  "alphaC \<equiv> [(CHR ''A'', CHR ''Z''), (CHR ''a'', CHR ''z''), (CHR ''-'', CHR ''-''),
             (CHR ''~'', CHR ''~'')]"

abbreviation (input) alnumC :: "(char \<times> char) list" where
  "alnumC \<equiv> [(CHR ''0'', CHR ''9''), (CHR ''A'', CHR ''Z''), (CHR ''a'', CHR ''z''),
             (CHR ''-'', CHR ''-''), (CHR ''~'', CHR ''~'')]"

abbreviation (input) inTail :: "char \<Rightarrow> bool" where
  "inTail c \<equiv> inClass c alnumC \<or> c = CHR ''.''"

abbreviation (input) inCore :: "char \<Rightarrow> bool" where
  "inCore c \<equiv> inClass c digitC \<or> c = CHR ''.''"

abbreviation (input) reTail :: regex where
  "reTail \<equiv> ReSeq (ReStar reAlnum) (reDotted reAlnum)"

abbreviation (input) rePre1 :: regex where
  "rePre1 \<equiv> ReSeq (reLit CHR ''-'') (ReSeq (rePlus reDigit) reTail)"

abbreviation (input) rePre2 :: regex where
  "rePre2 \<equiv> ReSeq (reOpt (reLit CHR ''-'')) (ReSeq (rePlus reAlpha) reTail)"

abbreviation (input) reMeta1 :: regex where
  "reMeta1 \<equiv> ReSeq (rePlus reAlnum) (reDotted reAlnum)"

abbreviation (input) reRest :: regex where
  "reRest \<equiv> ReSeq (reOpt rePre) (reOpt reMeta)"

abbreviation (input) reBody :: regex where
  "reBody \<equiv> ReSeq reCore reRest"

definition tailEnd :: "string \<Rightarrow> string" where
  "tailEnd s = hd (matches (reDotted reAlnum) (dropWhile (\<lambda>c. inClass c alnumC) s))"

text \<open>
  Package \<open>go-version\<close> is not part of the program: its parser \<open>NewVersion\<close>
  (\<open>None\<close> for an error) and its \<open>Compare\<close> are parameters.
\<close>

record 'v VersionLib =
  newVersion :: "string \<Rightarrow> 'v option"
  compareVersion :: "'v \<Rightarrow> 'v \<Rightarrow> int"

text \<open>
  A stand-in for the library in concrete evaluations: a version is the text it was parsed
  from, and versions compare as texts.
\<close>

definition sampleVersionLib :: "string VersionLib" where
  "sampleVersionLib = \<lparr>newVersion = Some, compareVersion = stringsCompare\<rparr>"

text \<open>\<open>guessVersion\<close>: \<open>None\<close> stands for the result \<open>(nil, 0)\<close>.\<close>

definition guessVersion :: "'v VersionLib \<Rightarrow> string \<Rightarrow> ('v \<times> nat) option" where
  "guessVersion lib name =
     (case findStringIndex versionRegexp name of
        None \<Rightarrow> None
      | Some (lo, hi) \<Rightarrow>
          (case newVersion lib (take (hi - lo) (drop lo name)) of
             None \<Rightarrow> None
           | Some ver \<Rightarrow> Some (ver, lo)))"


section \<open>Sorting and compacting the entries\<close>

definition sortLinks :: "Flags \<Rightarrow> 'v VersionLib \<Rightarrow> Item \<Rightarrow> Item \<Rightarrow> int" where
  "sortLinks flags lib a b =
     (if (Size a \<noteq> None) \<noteq> (Size b \<noteq> None) then (if Size a \<noteq> None then - 1 else 1)
      else if versionSort flags then
        (case (guessVersion lib (Name a), guessVersion lib (Name b)) of
           (Some (va, i), Some (vb, j)) \<Rightarrow>
             (if stringsCompare (take i (Name a)) (take j (Name b)) \<noteq> 0
              then stringsCompare (take i (Name a)) (take j (Name b))
              else if compareVersion lib vb va \<noteq> 0 then compareVersion lib vb va
              else stringsCompare (Name a) (Name b))
         | _ \<Rightarrow> stringsCompare (Name a) (Name b))
      else stringsCompare (Name a) (Name b))"

definition slicesSortStableFunc :: "('a \<Rightarrow> 'a \<Rightarrow> int) \<Rightarrow> 'a list \<Rightarrow> 'a list" where
  "slicesSortStableFunc cmp xs = insertionSortCmpFunc cmp xs"

text \<open>
  \<open>slices.CompactFunc\<close>: an element is dropped when it is equal, by \<open>eq\<close>, to the
  element just before it in the slice as given.
\<close>

fun compactFrom :: "('a \<Rightarrow> 'a \<Rightarrow> bool) \<Rightarrow> 'a \<Rightarrow> 'a list \<Rightarrow> 'a list" where
  "compactFrom eq p [] = []"
| "compactFrom eq p (x # xs) = (if eq x p then compactFrom eq x xs else x # compactFrom eq x xs)"

fun slicesCompactFunc :: "('a \<Rightarrow> 'a \<Rightarrow> bool) \<Rightarrow> 'a list \<Rightarrow> 'a list" where
  "slicesCompactFunc eq [] = []"
| "slicesCompactFunc eq (x # xs) = x # compactFrom eq x xs"

text \<open>The entries of a listing, as \<open>handleIndex\<close> computes them before it writes.\<close>

definition sortedItems :: "Flags \<Rightarrow> 'v VersionLib \<Rightarrow> Item list \<Rightarrow> Item list \<Rightarrow> Item list" where
  "sortedItems flags lib mountLinks storageLinks =
     slicesSortStableFunc (sortLinks flags lib) (([] @ mountLinks) @ storageLinks)"

definition listingItems :: "Flags \<Rightarrow> 'v VersionLib \<Rightarrow> Item list \<Rightarrow> Item list \<Rightarrow> Item list" where
  "listingItems flags lib mountLinks storageLinks =
     slicesCompactFunc (\<lambda>a b. Name a = Name b) (sortedItems flags lib mountLinks storageLinks)"

section \<open>The readme cache\<close>

record readmeCacheEntry =
  markdown :: string
  timestamp :: int

text \<open>The three package-level variables of the cache.\<close>

record CacheState =
  rmCacheSize :: int
  rmCache :: "string \<Rightarrow> readmeCacheEntry option"
  rmKeys :: "string list"

definition rmCacheMaxSize :: int where
  "rmCacheMaxSize = 16 * 1024 * 1024"

definition emptyCache :: CacheState where
  "emptyCache = \<lparr>rmCacheSize = 0, rmCache = (\<lambda>key. None), rmKeys = []\<rparr>"

definition cacheKey :: "ObjectAttrs \<Rightarrow> string" where
  "cacheKey attrs = oaBucket attrs @ ''/'' @ oaName attrs"

text \<open>
  The purge loop.  Reading a key that the map does not hold gives the zero entry, whose
  markdown has length 0.
\<close>

fun purge :: "int \<Rightarrow> (string \<Rightarrow> readmeCacheEntry option) \<Rightarrow> string list
    \<Rightarrow> int \<times> (string \<Rightarrow> readmeCacheEntry option) \<times> string list" where
  "purge sz cache [] = (sz, cache, [])"
| "purge sz cache (key # keys) =
     (if sz > rmCacheMaxSize
      then purge (sz - (case cache key of None \<Rightarrow> 0 | Some e \<Rightarrow> int (length (markdown e))))
             (cache(key := None)) keys
      else (sz, cache, key # keys))"

definition purgeCache :: "CacheState \<Rightarrow> CacheState" where
  "purgeCache st =
     (case purge (rmCacheSize st) (rmCache st) (rmKeys st) of
        (sz, cache, keys) \<Rightarrow> \<lparr>rmCacheSize = sz, rmCache = cache, rmKeys = keys\<rparr>)"

datatype fetch_error = NewReaderError | ReadFromError

text \<open>
  The outcome of \<open>fetchReadme\<close>: what it returns, the objects on which it opened a
  reader (bucket and name), and the cache afterwards.
\<close>

record FetchOutcome =
  foResult :: "fetch_error + string"
  foReads :: "(string \<times> string) list"
  foState :: CacheState

definition fetchReadme :: "Backend \<Rightarrow> ObjectAttrs \<Rightarrow> CacheState \<Rightarrow> FetchOutcome" where
  "fetchReadme backend attrs st =
     (let key = cacheKey attrs;
          hit = (case rmCache st key of
                   None \<Rightarrow> None
                 | Some entry \<Rightarrow> if \<not> timestamp entry > oaUpdated attrs then Some entry else None)
      in case hit of
           Some entry \<Rightarrow> \<lparr>foResult = Inr (markdown entry), foReads = [], foState = st\<rparr>
         | None \<Rightarrow>
             (case newReader backend (oaBucket attrs) (oaName attrs) of
                None \<Rightarrow> \<lparr>foResult = Inl NewReaderError,
                          foReads = [(oaBucket attrs, oaName attrs)], foState = st\<rparr>
              | Some reader \<Rightarrow>
                  if rdFails reader
                  then \<lparr>foResult = Inl ReadFromError,
                        foReads = [(oaBucket attrs, oaName attrs)], foState = st\<rparr>
                  else
                    (let md = rdData reader;
                         wasInCache = (rmCache st key \<noteq> None);
                         st1 = st\<lparr>rmCache := (rmCache st)
                                  (key := Some \<lparr>markdown = md, timestamp = oaUpdated attrs\<rparr>)\<rparr>;
                         st2 = (if \<not> wasInCache
                                then purgeCache (st1\<lparr>rmCacheSize := rmCacheSize st1 + int (length md),
                                                      rmKeys := rmKeys st1 @ [key]\<rparr>)
                                else st1)
                     in \<lparr>foResult = Inr md,
                         foReads = [(oaBucket attrs, oaName attrs)], foState = st2\<rparr>)))"

text \<open>
  For stating what the bookkeeping maintains: the length of the markdown under a key, and
  the state in which the queue lists the cached keys once each and the running total is
  the sum of their lengths.
\<close>

definition entryLen :: "readmeCacheEntry option \<Rightarrow> int" where
  "entryLen e = (case e of None \<Rightarrow> 0 | Some entry \<Rightarrow> int (length (markdown entry)))"

definition cacheInv :: "CacheState \<Rightarrow> bool" where
  "cacheInv st \<longleftrightarrow>
     distinct (rmKeys st) \<and>
     (\<forall>key. rmCache st key \<noteq> None \<longleftrightarrow> key \<in> set (rmKeys st)) \<and>
     rmCacheSize st = (\<Sum>key\<leftarrow>rmKeys st. entryLen (rmCache st key))"

section \<open>Requests and responses\<close>

text \<open>
  A request: method, \<open>URL.Path\<close>, the header and the query, each from a key to the list
  of its values (empty for a key that is not there).  \<open>valuesGet\<close> is the \<open>Get\<close> of
  \<open>http.Header\<close> and of \<open>url.Values\<close>: the first value, or the empty string.
\<close>

record Request =
  reqMethod :: string
  reqPath :: string
  reqHeader :: "string \<Rightarrow> string list"
  reqQuery :: "string \<Rightarrow> string list"

definition valuesGet :: "(string \<Rightarrow> string list) \<Rightarrow> string \<Rightarrow> string" where
  "valuesGet vs key = (case vs key of [] \<Rightarrow> [] | v # _ \<Rightarrow> v)"

text \<open>
  What a handler writes: the status, the calls of \<open>Header().Set\<close> in the order made,
  and the body.  The body of a listing is kept as data: the entries handed to the JSON
  encoder, or the parts of the HTML page, a row holding the fields of the entry that the
  page shows.
\<close>

datatype HtmlPart =
    PageHtml
  | MainOpen
  | ParentRow
  | TableSplit
  | EntryRow string "nat option" "int option" "string option"
  | MainClose
  | FooterOpen
  | ReadmeHtml string
  | FooterClose

datatype Body = NoBody | JsonBody "Item list" | HtmlBody "HtmlPart list" | ObjectBody string

record Response =
  status :: nat
  headerSets :: "(string \<times> string) list"
  body :: Body

text \<open>
  Of package \<open>time\<close> and \<open>net/http\<close>: \<open>time.Parse(http.TimeFormat, s)\<close>
  (\<open>None\<close> for an error) and \<open>t.Format(http.TimeFormat)\<close> are parameters;
  \<open>Truncate\<close> rounds an instant down to a multiple of the duration.
\<close>

record Stdlib =
  parseHTTPTime :: "string \<Rightarrow> int option"
  formatHTTPTime :: "int \<Rightarrow> string"

definition second :: int where
  "second = 1000000000"

definition minute :: int where
  "minute = 60 * second"

definition truncateTime :: "int \<Rightarrow> int \<Rightarrow> int" where
  "truncateTime t d = (if d \<le> 0 then t else t - t mod d)"

definition defaultCacheControl :: string where
  "defaultCacheControl = ''public, max-age=60, stale-while-revalidate=86400, stale-if-error=86400''"

text \<open>\<open>fmt.Sprintf("%d", n)\<close>.\<close>

function intDigits :: "int \<Rightarrow> string" where
  "intDigits n =
     (if n < 10 then [char_of (48 + n)] else intDigits (n div 10) @ [char_of (48 + n mod 10)])"
  by pat_completeness auto
termination
  by (relation "measure nat") auto

declare intDigits.simps [simp del]

definition sprintInt :: "int \<Rightarrow> string" where
  "sprintInt n = (if n < 0 then ''-'' @ intDigits (- n) else intDigits n)"

text \<open>\<open>setHeaderIfNotEmpty\<close>: the header calls afterwards, and the value it returns.\<close>

definition setHeaderIfNotEmpty :: "(string \<times> string) list \<Rightarrow> string \<Rightarrow> string
    \<Rightarrow> (string \<times> string) list \<times> bool" where
  "setHeaderIfNotEmpty h key val = (if val \<noteq> [] then (h @ [(key, val)], True) else (h, False))"


section \<open>Serving a listing\<close>

text \<open>\<open>renderReadme\<close>: the parts written, and the outcome of the fetch.\<close>

definition renderReadme :: "Backend \<Rightarrow> ObjectAttrs \<Rightarrow> CacheState \<Rightarrow> HtmlPart list \<times> FetchOutcome" where
  "renderReadme backend attrs st =
     (let out = fetchReadme backend attrs st
      in case foResult out of
           Inl err \<Rightarrow> ([], out)
         | Inr md \<Rightarrow> ([ReadmeHtml md], out))"

text \<open>The loop over the items that writes the rows; \<open>prev\<close> is the item before.\<close>

fun htmlRows :: "string \<Rightarrow> Item option \<Rightarrow> Item list \<Rightarrow> HtmlPart list" where
  "htmlRows path prev [] = []"
| "htmlRows path prev (item # items) =
     (case prev of
        Some p \<Rightarrow> if Size p \<noteq> None \<and> Size item = None then [TableSplit] else []
      | None \<Rightarrow> [])
     @ (if Name item = ''favicon.ico'' \<and> path = ''/'' then []
        else [EntryRow (Name item) (Size item) (Timestamp item) (Fingerprint item)])
     @ htmlRows path (Some item) items"

definition handleIndex :: "Flags \<Rightarrow> 'v VersionLib \<Rightarrow> Stdlib \<Rightarrow> Backend \<Rightarrow> MountPoint list
    \<Rightarrow> int \<Rightarrow> Request \<Rightarrow> CacheState \<Rightarrow> Response \<times> CacheState" where
  "handleIndex flags lib std backend mountPoints now r st =
     (let h = [(''Content-Type'', ''text/html''),
               (''Last-Modified'', formatHTTPTime std (truncateTime now minute)),
               (''Cache-Control'', defaultCacheControl),
               (''Vary'', ''Accept'')]
      in if reqMethod r = ''HEAD'' then (\<lparr>status = 200, headerSets = h, body = NoBody\<rparr>, st)
         else
           (let jsonOutput = (valuesGet (reqHeader r) ''Accept'' = ''application/json''
                              \<or> valuesGet (reqQuery r) ''format'' = ''json'');
                h1 = (if jsonOutput then h @ [(''Content-Type'', ''application/json'')] else h);
                mountLinks = linksFromMountPoints mountPoints (reqPath r);
                (storageLinks, readmeObject) = linksFromStorage flags backend mountPoints (reqPath r);
                items = listingItems flags lib mountLinks storageLinks
            in if jsonOutput then (\<lparr>status = 200, headerSets = h1, body = JsonBody items\<rparr>, st)
               else
                 (let rows = [PageHtml, MainOpen]
                        @ (if reqPath r \<noteq> ''/'' then [ParentRow] else [])
                        @ htmlRows (reqPath r) None items
                        @ [MainClose]
                  in case readmeObject of
                       Some attrs \<Rightarrow>
                         if readme flags
                         then (case renderReadme backend attrs st of
                                 (parts, out) \<Rightarrow>
                                   (\<lparr>status = 200, headerSets = h1,
                                     body = HtmlBody (rows @ [FooterOpen] @ parts @ [FooterClose])\<rparr>,
                                    foState out))
                         else (\<lparr>status = 200, headerSets = h1, body = HtmlBody rows\<rparr>, st)
                     | None \<Rightarrow> (\<lparr>status = 200, headerSets = h1, body = HtmlBody rows\<rparr>, st))))"


section \<open>Serving an object\<close>

text \<open>\<open>strings.Trim(strings.TrimPrefix(inm, "W/"), "\"")\<close>.\<close>

definition trimQuotes :: "string \<Rightarrow> string" where
  "trimQuotes s =
     rev (dropWhile (\<lambda>c. c = CHR 0x22) (rev (dropWhile (\<lambda>c. c = CHR 0x22) s)))"

definition stripValidator :: "string \<Rightarrow> string" where
  "stripValidator inm = trimQuotes (trimPrefix inm ''W/'')"

definition notModified :: "(string \<times> string) list \<Rightarrow> Response" where
  "notModified h = \<lparr>status = 304, headerSets = h, body = NoBody\<rparr>"

text \<open>
  The part of \<open>handleObject\<close> after the conditional requests.  When the copy of the
  content fails, the status 500 written afterwards counts only if nothing has been
  written before it: the first bytes of the body go out under the status 200.
\<close>

definition serveObject :: "Stdlib \<Rightarrow> Backend \<Rightarrow> int \<Rightarrow> Request \<Rightarrow> string \<Rightarrow> string
    \<Rightarrow> ObjectAttrs \<Rightarrow> (string \<times> string) list \<Rightarrow> Response" where
  "serveObject std backend now r bucket name attrs h0 =
     (let h1 = h0 @ [(''Content-Length'', sprintInt (oaSize attrs))];
          h2 = fst (setHeaderIfNotEmpty h1 ''Content-Type'' (oaContentType attrs));
          h3 = fst (setHeaderIfNotEmpty h2 ''Content-Encoding'' (oaContentEncoding attrs));
          h4 = fst (setHeaderIfNotEmpty h3 ''Content-Disposition'' (oaContentDisposition attrs));
          h5 = (case setHeaderIfNotEmpty h4 ''Cache-Control'' (oaCacheControl attrs) of
                  (h', wasSet) \<Rightarrow> if \<not> wasSet then h' @ [(''Cache-Control'', defaultCacheControl)] else h');
          h6 = foldl (\<lambda>h (k, v). fst (setHeaderIfNotEmpty h k v)) h5 (oaMetadata attrs);
          h7 = h6 @ [(''X-Fetched-At'', formatHTTPTime std now)]
      in if reqMethod r = ''HEAD'' then \<lparr>status = 200, headerSets = h7, body = NoBody\<rparr>
         else
           (case newReader backend bucket name of
              None \<Rightarrow> \<lparr>status = 500, headerSets = h7, body = NoBody\<rparr>
            | Some reader \<Rightarrow>
                \<lparr>status = (if rdFails reader \<and> rdData reader = [] then 500 else 200),
                 headerSets = h7 @ [(''Content-Length'', sprintInt (rdSize reader))],
                 body = ObjectBody (rdData reader)\<rparr>))"

definition handleObject :: "Stdlib \<Rightarrow> Backend \<Rightarrow> MountPoint list \<Rightarrow> int \<Rightarrow> Request \<Rightarrow> Response" where
  "handleObject std backend mountPoints now r =
     (case findMountPoint mountPoints (reqPath r) of
        None \<Rightarrow> \<lparr>status = 404, headerSets = [], body = NoBody\<rparr>
      | Some mountPoint \<Rightarrow>
          (let name = Prefix mountPoint @ trimPrefix (reqPath r) (Path mountPoint)
           in case objectAttrs backend (Bucket mountPoint) name of
                None \<Rightarrow> \<lparr>status = 404, headerSets = [], body = NoBody\<rparr>
              | Some attrs \<Rightarrow>
                  (let h = [(''ETag'', [CHR 0x22] @ oaEtag attrs @ [CHR 0x22]),
                            (''Last-Modified'', formatHTTPTime std (oaUpdated attrs))];
                       inm = valuesGet (reqHeader r) ''If-None-Match''
                   in if inm \<noteq> [] \<and> stripValidator inm = oaEtag attrs then notModified h
                      else
                        (case parseHTTPTime std (valuesGet (reqHeader r) ''If-Modified-Since'') of
                           Some t \<Rightarrow>
                             if \<not> truncateTime (oaUpdated attrs) second > t then notModified h
                             else serveObject std backend now r (Bucket mountPoint) name attrs h
                         | None \<Rightarrow> serveObject std backend now r (Bucket mountPoint) name attrs h))))"

text \<open>The router.\<close>

definition handle :: "Flags \<Rightarrow> 'v VersionLib \<Rightarrow> Stdlib \<Rightarrow> Backend \<Rightarrow> MountPoint list
    \<Rightarrow> int \<Rightarrow> Request \<Rightarrow> CacheState \<Rightarrow> Response \<times> CacheState" where
  "handle flags lib std backend mountPoints now r st =
     (if reqMethod r \<noteq> ''GET'' \<and> reqMethod r \<noteq> ''HEAD''
      then (\<lparr>status = 405, headerSets = [], body = NoBody\<rparr>, st)
      else if suffix ''/'' (reqPath r) then handleIndex flags lib std backend mountPoints now r st
      else (handleObject std backend mountPoints now r, st))"

text \<open>Reading the entries back from what was written.\<close>

fun isEntryRow :: "HtmlPart \<Rightarrow> bool" where
  "isEntryRow (EntryRow n s t f) = True"
| "isEntryRow _ = False"

definition entryRow :: "Item \<Rightarrow> HtmlPart" where
  "entryRow item = EntryRow (Name item) (Size item) (Timestamp item) (Fingerprint item)"

text \<open>
  Stand-ins for concrete evaluations: a time format that knows one date, ten seconds after
  the zero instant, and requests with at most one value for a header and no query.
\<close>

definition sampleStdlib :: Stdlib where
  "sampleStdlib =
     \<lparr>parseHTTPTime = (\<lambda>s. if s = ''Mon, 01 Jan 0001 00:00:10 GMT'' then Some (10 * second) else None),
      formatHTTPTime = (\<lambda>t. if t = 10 * second then ''Mon, 01 Jan 0001 00:00:10 GMT'' else sprintInt t)\<rparr>"

definition sampleRequest :: "string \<Rightarrow> string \<Rightarrow> (string \<times> string) list \<Rightarrow> Request" where
  "sampleRequest method path headers =
     \<lparr>reqMethod = method, reqPath = path,
      reqHeader = (\<lambda>key. case map_of headers key of None \<Rightarrow> [] | Some v \<Rightarrow> [v]),
      reqQuery = (\<lambda>key. [])\<rparr>"

text \<open>A backend whose readers all deliver the given content.\<close>

definition contentBackend :: "string \<Rightarrow> Backend" where
  "contentBackend content =
     \<lparr>bucketObjects = (\<lambda>bucket pfx. IterDone),
      objectAttrs = (\<lambda>bucket name. None),
      newReader = (\<lambda>bucket name.
         Some \<lparr>rdSize = int (length content), rdData = content, rdFails = False\<rparr>)\<rparr>"

section \<open>Properties of the mount table\<close>

lemma findMountPoint_None:
  "findMountPoint ms p = None \<longleftrightarrow> (\<forall>m\<in>set ms. \<not> prefix (Path m) p)"
  by (induction ms) auto

lemma findMountPoint_Some:
  "findMountPoint ms p = Some m \<Longrightarrow> m \<in> set ms \<and> prefix (Path m) p"
  by (induction ms) (auto split: if_splits)

lemma findMountPoint_longest:
  "sorted_wrt (\<lambda>a b. length (Path b) \<le> length (Path a)) ms \<Longrightarrow>
   findMountPoint ms p = Some m \<Longrightarrow> m' \<in> set ms \<Longrightarrow> prefix (Path m') p \<Longrightarrow>
   length (Path m') \<le> length (Path m)"
  by (induction ms) (auto split: if_splits)

lemma prefix_same_length: "prefix a p \<Longrightarrow> prefix b p \<Longrightarrow> length a = length b \<Longrightarrow> a = b"
  by (metis prefix_length_prefix order_refl prefix_order.antisym)

lemma stringsCompare_refl: "stringsCompare a a = 0"
  by (induction a) auto


lemma stringsCompare_flip: "stringsCompare b a = - stringsCompare a b"
  by (induction a b rule: stringsCompare.induct) auto

lemma stringsCompare_Cons_le:
  "stringsCompare (x # xs) (y # ys) \<le> 0 \<longleftrightarrow>
     (of_char x :: nat) < of_char y \<or> ((of_char x :: nat) = of_char y \<and> stringsCompare xs ys \<le> 0)"
  by auto

lemma stringsCompare_trans:
  "stringsCompare a b \<le> 0 \<Longrightarrow> stringsCompare b c \<le> 0 \<Longrightarrow> stringsCompare a c \<le> 0"
proof (induction a arbitrary: b c)
  case Nil
  then show ?case by (cases c) simp_all
next
  case (Cons x xs)
  from Cons.prems(1) obtain y ys where b: "b = y # ys" by (cases b) auto
  from Cons.prems(2) b obtain z zs where c: "c = z # zs" by (cases c) auto
  from Cons.prems(1) have xy: "(of_char x :: nat) < of_char y \<or>
      ((of_char x :: nat) = of_char y \<and> stringsCompare xs ys \<le> 0)"
    unfolding b stringsCompare_Cons_le .
  from Cons.prems(2) have yz: "(of_char y :: nat) < of_char z \<or>
      ((of_char y :: nat) = of_char z \<and> stringsCompare ys zs \<le> 0)"
    unfolding b c stringsCompare_Cons_le .
  have "(of_char x :: nat) < of_char z \<or>
      ((of_char x :: nat) = of_char z \<and> stringsCompare xs zs \<le> 0)"
    using xy yz Cons.IH[of ys zs] by linarith
  then show ?case unfolding c stringsCompare_Cons_le .
qed

lemma set_insertBack: "set (insertBack cmp x ys) = insert x (set ys)"
  by (induction ys) auto

lemma mset_insertBack: "mset (insertBack cmp x ys) = add_mset x (mset ys)"
  by (induction ys) auto

lemma mset_foldl_insertBack:
  "mset (foldl (\<lambda>acc x. insertBack cmp x acc) acc xs) = mset acc + mset xs"
  by (induction xs arbitrary: acc) (auto simp: mset_insertBack)

lemma mset_insertionSortCmpFunc: "mset (insertionSortCmpFunc cmp xs) = mset xs"
  by (simp add: insertionSortCmpFunc_def mset_foldl_insertBack)

lemma sorted_insertBack:
  assumes tr: "\<And>a b c. cmp a b \<le> 0 \<Longrightarrow> cmp b c \<le> 0 \<Longrightarrow> cmp a c \<le> 0"
    and tot: "\<And>a b. \<not> cmp a b < 0 \<Longrightarrow> cmp b a \<le> 0"
  shows "sorted_wrt (\<lambda>a b. cmp b a \<le> 0) ys \<Longrightarrow> sorted_wrt (\<lambda>a b. cmp b a \<le> 0) (insertBack cmp x ys)"
proof (induction ys)
  case Nil then show ?case by simp
next
  case (Cons y ys)
  show ?case
  proof (cases "cmp x y < 0")
    case True
    with Cons show ?thesis by (auto simp: set_insertBack)
  next
    case False
    then have "cmp y x \<le> 0" by (rule tot)
    moreover have "\<forall>z\<in>set ys. cmp z x \<le> 0"
      using Cons.prems \<open>cmp y x \<le> 0\<close> tr by auto
    ultimately show ?thesis using Cons.prems False by auto
  qed
qed

lemma sorted_foldl_insertBack:
  assumes tr: "\<And>a b c. cmp a b \<le> 0 \<Longrightarrow> cmp b c \<le> 0 \<Longrightarrow> cmp a c \<le> 0"
    and tot: "\<And>a b. \<not> cmp a b < 0 \<Longrightarrow> cmp b a \<le> 0"
  shows "sorted_wrt (\<lambda>a b. cmp b a \<le> 0) acc \<Longrightarrow>
         sorted_wrt (\<lambda>a b. cmp b a \<le> 0) (foldl (\<lambda>acc x. insertBack cmp x acc) acc xs)"
proof (induction xs arbitrary: acc)
  case Nil then show ?case by simp
next
  case (Cons x xs)
  show ?case using Cons.IH[OF sorted_insertBack[OF tr tot Cons.prems]] by simp
qed

lemma sorted_insertionSortCmpFunc:
  assumes tr: "\<And>a b c. cmp a b \<le> 0 \<Longrightarrow> cmp b c \<le> 0 \<Longrightarrow> cmp a c \<le> 0"
    and tot: "\<And>a b. \<not> cmp a b < 0 \<Longrightarrow> cmp b a \<le> 0"
  shows "sorted_wrt (\<lambda>a b. cmp a b \<le> 0) (insertionSortCmpFunc cmp xs)"
proof -
  have "sorted_wrt (\<lambda>a b. cmp b a \<le> 0) (foldl (\<lambda>acc x. insertBack cmp x acc) [] xs)"
    by (rule sorted_foldl_insertBack[OF tr tot]) simp_all
  then show ?thesis
    by (simp add: insertionSortCmpFunc_def sorted_wrt_rev)
qed

lemma mountCmp_trans: "mountCmp a b \<le> 0 \<Longrightarrow> mountCmp b c \<le> 0 \<Longrightarrow> mountCmp a c \<le> 0"
  unfolding mountCmp_def using stringsCompare_trans[of "Path a" "Path b" "Path c"]
  by (auto split: if_splits)

lemma mountCmp_total: "\<not> mountCmp a b < 0 \<Longrightarrow> mountCmp b a \<le> 0"
  unfolding mountCmp_def using stringsCompare_flip[of "Path a" "Path b"]
  by (auto split: if_splits)

lemma mountCmp_le_length: "mountCmp a b \<le> 0 \<Longrightarrow> length (Path b) \<le> length (Path a)"
  unfolding mountCmp_def by (auto split: if_splits)

lemma mountCmp_le_iff:
  "mountCmp a b \<le> 0 \<longleftrightarrow>
     length (Path b) < length (Path a) \<or>
     (length (Path a) = length (Path b) \<and> stringsCompare (Path a) (Path b) \<le> 0)"
  unfolding mountCmp_def by auto

lemma sorted_slicesSortFunc_mountCmp:
  "sorted_wrt (\<lambda>a b. mountCmp a b \<le> 0) (slicesSortFunc mountCmp ms)"
  unfolding slicesSortFunc_def
  by (rule sorted_insertionSortCmpFunc) (erule (1) mountCmp_trans, erule mountCmp_total)

text \<open>
  Claim C1.  The table built by \<open>prepareMountPoints\<close> is a permutation of the
  configured mounts, ordered by descending path length and then by ascending byte order.
  On every table in that order, \<open>findMountPoint\<close> returns nothing exactly when no
  mount's path is a prefix of the request path; otherwise it returns a mount of the table
  whose path is a prefix of the request path and is at least as long as every other mount
  path that is a prefix; a mount whose prefix path has the same length never compares
  before the one returned.
\<close>

theorem findMountPoint_longest_prefix:
  "(\<forall>mps. prepareMountPoints args = Inr mps \<longrightarrow>
      (\<exists>cfg. parseMountPoints args = Inr cfg \<and> mset mps = mset cfg) \<and>
      sorted_wrt (\<lambda>a b. length (Path b) < length (Path a) \<or>
         (length (Path a) = length (Path b) \<and> stringsCompare (Path a) (Path b) \<le> 0)) mps) \<and>
   (\<forall>mps. sorted_wrt (\<lambda>a b. length (Path b) < length (Path a) \<or>
         (length (Path a) = length (Path b) \<and> stringsCompare (Path a) (Path b) \<le> 0)) mps \<longrightarrow>
      (findMountPoint mps path = None \<longleftrightarrow> (\<forall>m\<in>set mps. \<not> prefix (Path m) path)) \<and>
      (\<forall>m. findMountPoint mps path = Some m \<longrightarrow>
         m \<in> set mps \<and> prefix (Path m) path \<and>
         (\<forall>m'\<in>set mps. prefix (Path m') path \<longrightarrow>
            length (Path m') \<le> length (Path m) \<and>
            (length (Path m') = length (Path m) \<longrightarrow> stringsCompare (Path m) (Path m') \<le> 0))))"
proof -
  have built: "(\<exists>cfg. parseMountPoints args = Inr cfg \<and> mset mps = mset cfg) \<and>
      sorted_wrt (\<lambda>a b. length (Path b) < length (Path a) \<or>
         (length (Path a) = length (Path b) \<and> stringsCompare (Path a) (Path b) \<le> 0)) mps"
    if p: "prepareMountPoints args = Inr mps" for mps
  proof -
    from p obtain cfg where cfg: "parseMountPoints args = Inr cfg"
      and mps: "mps = slicesSortFunc mountCmp cfg"
      by (auto simp: prepareMountPoints_def split: if_splits sum.splits)
    have perm: "mset mps = mset cfg"
      by (simp add: mps slicesSortFunc_def mset_insertionSortCmpFunc)
    have "sorted_wrt (\<lambda>a b. mountCmp a b \<le> 0) mps"
      unfolding mps by (rule sorted_slicesSortFunc_mountCmp)
    then have "sorted_wrt (\<lambda>a b. length (Path b) < length (Path a) \<or>
         (length (Path a) = length (Path b) \<and> stringsCompare (Path a) (Path b) \<le> 0)) mps"
      by (simp add: mountCmp_le_iff)
    with cfg perm show ?thesis by blast
  qed
  have found: "(findMountPoint mps path = None \<longleftrightarrow> (\<forall>m\<in>set mps. \<not> prefix (Path m) path)) \<and>
      (\<forall>m. findMountPoint mps path = Some m \<longrightarrow>
         m \<in> set mps \<and> prefix (Path m) path \<and>
         (\<forall>m'\<in>set mps. prefix (Path m') path \<longrightarrow>
            length (Path m') \<le> length (Path m) \<and>
            (length (Path m') = length (Path m) \<longrightarrow> stringsCompare (Path m) (Path m') \<le> 0)))"
    if srt: "sorted_wrt (\<lambda>a b. length (Path b) < length (Path a) \<or>
         (length (Path a) = length (Path b) \<and> stringsCompare (Path a) (Path b) \<le> 0)) mps"
    for mps
  proof -
    have len: "sorted_wrt (\<lambda>a b. length (Path b) \<le> length (Path a)) mps"
      by (rule sorted_wrt_mono_rel[OF _ srt]) auto
    have best: "length (Path m') \<le> length (Path m) \<and>
          (length (Path m') = length (Path m) \<longrightarrow> stringsCompare (Path m) (Path m') \<le> 0)"
      if f: "findMountPoint mps path = Some m" and m': "m' \<in> set mps" and p: "prefix (Path m') path"
      for m m'
    proof -
      have "length (Path m') \<le> length (Path m)"
        by (rule findMountPoint_longest[OF len f m' p])
      moreover have "stringsCompare (Path m) (Path m') \<le> 0" if "length (Path m') = length (Path m)"
      proof -
        have "Path m = Path m'"
          using findMountPoint_Some[OF f] p that by (auto intro: prefix_same_length)
        then show ?thesis by (simp add: stringsCompare_refl)
      qed
      ultimately show ?thesis by simp
    qed
    show ?thesis
      using findMountPoint_None[of mps path] findMountPoint_Some[of mps path] best
      by blast
  qed
  show ?thesis using built found by blast
qed

theorem findMountPoint_longest_prefix_witness:
  "prepareMountPoints [''a:bucket1:'', ''/a/b:bucket2:x/'', ''/c/:bucket3:p''] =
     Inr [\<lparr>Path = ''/a/b/'', Bucket = ''bucket2'', Prefix = ''x/''\<rparr>,
          \<lparr>Path = ''/a/'', Bucket = ''bucket1'', Prefix = []\<rparr>,
          \<lparr>Path = ''/c/'', Bucket = ''bucket3'', Prefix = ''p''\<rparr>] \<and>
   findMountPoint [\<lparr>Path = ''/a/b/'', Bucket = ''bucket2'', Prefix = ''x/''\<rparr>,
          \<lparr>Path = ''/a/'', Bucket = ''bucket1'', Prefix = []\<rparr>,
          \<lparr>Path = ''/c/'', Bucket = ''bucket3'', Prefix = ''p''\<rparr>] ''/a/b/file.txt''
     = Some \<lparr>Path = ''/a/b/'', Bucket = ''bucket2'', Prefix = ''x/''\<rparr> \<and>
   prefix ''/a/'' ''/a/b/file.txt'' \<and> length ''/a/'' \<le> length ''/a/b/''"
proof -
  let ?mps = "[\<lparr>Path = ''/a/b/'', Bucket = ''bucket2'', Prefix = ''x/''\<rparr>,
          \<lparr>Path = ''/a/'', Bucket = ''bucket1'', Prefix = []\<rparr>,
          \<lparr>Path = ''/c/'', Bucket = ''bucket3'', Prefix = ''p''\<rparr>]"
  let ?args = "[''a:bucket1:'', ''/a/b:bucket2:x/'', ''/c/:bucket3:p'']"
  have h: "prepareMountPoints ?args = Inr ?mps"
    by code_simp
  have f: "findMountPoint ?mps ''/a/b/file.txt'' = Some \<lparr>Path = ''/a/b/'', Bucket = ''bucket2'', Prefix = ''x/''\<rparr>"
    by code_simp
  have p: "prefix ''/a/'' ''/a/b/file.txt''"
    by code_simp
  have srt: "sorted_wrt (\<lambda>a b. length (Path b) < length (Path a) \<or>
         (length (Path a) = length (Path b) \<and> stringsCompare (Path a) (Path b) \<le> 0)) ?mps"
    using findMountPoint_longest_prefix[of ?args "''/a/b/file.txt''"] h by blast
  have "\<forall>m'\<in>set ?mps. prefix (Path m') ''/a/b/file.txt'' \<longrightarrow>
            length (Path m') \<le> length (Path \<lparr>Path = ''/a/b/'', Bucket = ''bucket2'', Prefix = ''x/''\<rparr>)"
    using findMountPoint_longest_prefix[of ?args "''/a/b/file.txt''"] srt f by blast
  then have "length ''/a/'' \<le> length ''/a/b/''"
    using p by simp
  then show ?thesis using h f p by simp
qed

section \<open>Properties of the storage listing\<close>

lemma storageLoop_acc:
  "storageLoop flags qp it (links0, rd0) =
     (links0 @ concat (map (\<lambda>a.
         if toLower (oaName a) = ''readme.md''
         then (if skipReadme flags \<or> oaName a = qp then [] else [objectItem qp a])
         else if oaName a \<noteq> [] then (if oaName a = qp then [] else [objectItem qp a])
         else if oaPrefix a \<noteq> [] then [dirItem (trimPrefix (oaPrefix a) qp)]
         else []) (iterResults it)),
      case filter (\<lambda>a. toLower (oaName a) = ''readme.md'') (iterResults it) of
        [] \<Rightarrow> rd0
      | r # rs \<Rightarrow> Some (last (r # rs)))"
proof (induction it arbitrary: links0 rd0)
  case IterDone
  then show ?case by simp
next
  case IterError
  then show ?case by simp
next
  case (IterNext attrs it)
  show ?case
  proof (cases "oaName attrs = []")
    case True
    then have "toLower (oaName attrs) \<noteq> ''readme.md''" by (simp add: toLower_def)
    with True show ?thesis by (simp add: IterNext.IH split: list.splits)
  next
    case False
    then show ?thesis by (simp add: IterNext.IH appendObject_def split: list.splits)
  qed
qed

text \<open>
  What \<open>linksFromStorage\<close> returns when a mount resolves.  The readme candidate is the
  last result of the backend whose name, as the backend gives it and in lower case, is
  \<open>readme.md\<close> (none when there is no such result), whatever the flags are and whether
  or not the result becomes an entry.  The entries are the results in order, where such a
  result becomes an entry exactly when the skip-readme flag is unset and its name differs
  from the query prefix; any other object becomes an entry when its name differs from the
  query prefix, and a common prefix always does.
\<close>

theorem linksFromStorage_readme:
  assumes "findMountPoint mountPoints path = Some mountPoint"
    and "results = iterResults (bucketObjects backend (Bucket mountPoint) (queryPrefixOf mountPoint path))"
  shows "snd (linksFromStorage flags backend mountPoints path) =
      (case filter (\<lambda>a. toLower (oaName a) = ''readme.md'') results of
        [] \<Rightarrow> None
      | r # rs \<Rightarrow> Some (last (r # rs))) \<and>
    fst (linksFromStorage flags backend mountPoints path) =
      concat (map (\<lambda>a.
         if toLower (oaName a) = ''readme.md''
         then (if skipReadme flags \<or> oaName a = queryPrefixOf mountPoint path then []
               else [objectItem (queryPrefixOf mountPoint path) a])
         else if oaName a \<noteq> []
           then (if oaName a = queryPrefixOf mountPoint path then []
                 else [objectItem (queryPrefixOf mountPoint path) a])
         else if oaPrefix a \<noteq> [] then [dirItem (trimPrefix (oaPrefix a) (queryPrefixOf mountPoint path))]
         else []) results)"
  using assms by (simp add: linksFromStorage_def storageLoop_acc)

theorem linksFromStorage_readme_witness:
  "findMountPoint [\<lparr>Path = ''/'', Bucket = ''bucket'', Prefix = []\<rparr>] ''/'' =
     Some \<lparr>Path = ''/'', Bucket = ''bucket'', Prefix = []\<rparr> \<and>
   snd (linksFromStorage \<lparr>readme = True, skipReadme = True, versionSort = False\<rparr>
      (bucketBackend [sampleObject ''README.md'' ''e1'' 5, sampleObject ''a.txt'' ''e2'' 6,
                      sampleObject ''ReadMe.md'' ''e3'' 7, sampleObject ''sub/b.txt'' ''e4'' 8])
      [\<lparr>Path = ''/'', Bucket = ''bucket'', Prefix = []\<rparr>] ''/'')
     = Some (sampleObject ''ReadMe.md'' ''e3'' 7) \<and>
   map Name (fst (linksFromStorage \<lparr>readme = True, skipReadme = True, versionSort = False\<rparr>
      (bucketBackend [sampleObject ''README.md'' ''e1'' 5, sampleObject ''a.txt'' ''e2'' 6,
                      sampleObject ''ReadMe.md'' ''e3'' 7, sampleObject ''sub/b.txt'' ''e4'' 8])
      [\<lparr>Path = ''/'', Bucket = ''bucket'', Prefix = []\<rparr>] ''/''))
     = [''a.txt'', ''sub/'']"
proof -
  let ?mp = "\<lparr>Path = ''/'', Bucket = ''bucket'', Prefix = []\<rparr>"
  let ?objs = "[sampleObject ''README.md'' ''e1'' 5, sampleObject ''a.txt'' ''e2'' 6,
                sampleObject ''ReadMe.md'' ''e3'' 7, sampleObject ''sub/b.txt'' ''e4'' 8]"
  have m: "findMountPoint [?mp] ''/'' = Some ?mp"
    by code_simp
  have q: "queryPrefixOf ?mp ''/'' = []"
    by code_simp
  have r: "[sampleObject ''README.md'' ''e1'' 5, sampleObject ''a.txt'' ''e2'' 6,
            sampleObject ''ReadMe.md'' ''e3'' 7, samplePrefix ''sub/''] =
     iterResults (bucketObjects (bucketBackend ?objs) (Bucket ?mp) (queryPrefixOf ?mp ''/''))"
    unfolding q by code_simp
  have l: "toLower ''README.md'' = ''readme.md''" "toLower ''ReadMe.md'' = ''readme.md''"
    "toLower ''a.txt'' \<noteq> ''readme.md''" "toLower [] \<noteq> ''readme.md''"
    by code_simp+
  have t: "trimPrefix ''a.txt'' [] = ''a.txt''" "trimPrefix ''sub/'' [] = ''sub/''"
    by code_simp+
  show ?thesis
    using m linksFromStorage_readme[OF m r,
        of "\<lparr>readme = True, skipReadme = True, versionSort = False\<rparr>"]
    by (simp add: l q t sampleObject_def samplePrefix_def objectItem_def dirItem_def)
qed

text \<open>
  Claim C10.  An object whose name is \<open>readme.md\<close>, whatever the case of its letters, is
  to be recorded as the readme candidate of the directory listed, and left out of the
  entries when the skip-readme flag is set.  \<open>linksFromStorage\<close> does so in the listing
  of the bucket's root, where the name that the backend gives is the name of the entry.
  In any other directory it does not: the name it compares with \<open>readme.md\<close> is the
  full name of the object, which starts with the query prefix, while the name of the entry
  is that name without the prefix.  With the objects \<open>README.md\<close>, \<open>docs/README.md\<close>
  and \<open>docs/a.txt\<close> in the bucket mounted at \<open>/\<close> and the skip-readme flag set, the
  listing of \<open>/\<close> has the candidate and no entry for it, and the listing of
  \<open>/docs/\<close> has no candidate and the entry \<open>README.md\<close>.
\<close>

theorem linksFromStorage_readme_subdirectory:
  "linksFromStorage \<lparr>readme = True, skipReadme = True, versionSort = False\<rparr>
      (bucketBackend [sampleObject ''README.md'' ''e1'' 5, sampleObject ''docs/README.md'' ''e2'' 6,
                      sampleObject ''docs/a.txt'' ''e3'' 7])
      [\<lparr>Path = ''/'', Bucket = ''bucket'', Prefix = []\<rparr>] ''/''
     = ([dirItem ''docs/''], Some (sampleObject ''README.md'' ''e1'' 5)) \<and>
   iterResults (bucketObjects
      (bucketBackend [sampleObject ''README.md'' ''e1'' 5, sampleObject ''docs/README.md'' ''e2'' 6,
                      sampleObject ''docs/a.txt'' ''e3'' 7]) ''bucket'' ''docs/'')
     = [sampleObject ''docs/README.md'' ''e2'' 6, sampleObject ''docs/a.txt'' ''e3'' 7] \<and>
   toLower (trimPrefix ''docs/README.md'' ''docs/'') = ''readme.md'' \<and>
   snd (linksFromStorage \<lparr>readme = True, skipReadme = True, versionSort = False\<rparr>
      (bucketBackend [sampleObject ''README.md'' ''e1'' 5, sampleObject ''docs/README.md'' ''e2'' 6,
                      sampleObject ''docs/a.txt'' ''e3'' 7])
      [\<lparr>Path = ''/'', Bucket = ''bucket'', Prefix = []\<rparr>] ''/docs/'') = None \<and>
   map Name (fst (linksFromStorage \<lparr>readme = True, skipReadme = True, versionSort = False\<rparr>
      (bucketBackend [sampleObject ''README.md'' ''e1'' 5, sampleObject ''docs/README.md'' ''e2'' 6,
                      sampleObject ''docs/a.txt'' ''e3'' 7])
      [\<lparr>Path = ''/'', Bucket = ''bucket'', Prefix = []\<rparr>] ''/docs/''))
     = [''README.md'', ''a.txt'']"
  by code_simp
section \<open>Properties of the version extraction\<close>

lemma findFrom_Some:
  "findFrom r i s = Some (lo, hi) \<Longrightarrow>
     i \<le> lo \<and> lo \<le> hi \<and> hi \<le> i + length s \<and>
     matches r (drop (lo - i) s) \<noteq> [] \<and> (\<forall>j<lo - i. matches r (drop j s) = [])"
proof (induction s arbitrary: i)
  case Nil
  then show ?case by (auto split: list.splits)
next
  case (Cons c cs)
  show ?case
  proof (cases "matches r (c # cs)")
    case Nil
    with Cons.prems have f: "findFrom r (Suc i) cs = Some (lo, hi)" by simp
    note ih = Cons.IH[OF f]
    from ih have lo: "Suc i \<le> lo" by simp
    then have d: "drop (lo - i) (c # cs) = drop (lo - Suc i) cs"
      by (simp add: drop_Cons' )
    have "matches r (drop j (c # cs)) = []" if "j < lo - i" for j
    proof (cases j)
      case 0
      then show ?thesis using Nil by simp
    next
      case (Suc k)
      then have "k < lo - Suc i" using that by simp
      with ih show ?thesis using Suc by simp
    qed
    with ih d lo show ?thesis by auto
  next
    case (Cons rest rs)
    with Cons.prems show ?thesis by auto
  qed
qed

lemma findFrom_None:
  "findFrom r i s = None \<longleftrightarrow> (\<forall>j\<le>length s. matches r (drop j s) = [])"
proof (induction s arbitrary: i)
  case Nil
  then show ?case by (auto split: list.splits)
next
  case (Cons c cs)
  show ?case
  proof (cases "matches r (c # cs)")
    case Nil
    have "(\<forall>j\<le>length (c # cs). matches r (drop j (c # cs)) = []) \<longleftrightarrow>
          (\<forall>j\<le>length cs. matches r (drop j cs) = [])"
    proof
      assume a: "\<forall>j\<le>length (c # cs). matches r (drop j (c # cs)) = []"
      show "\<forall>j\<le>length cs. matches r (drop j cs) = []"
      proof (intro allI impI)
        fix j assume "j \<le> length cs"
        with a have "matches r (drop (Suc j) (c # cs)) = []" by (metis Suc_le_mono length_Cons)
        then show "matches r (drop j cs) = []" by simp
      qed
    next
      assume a: "\<forall>j\<le>length cs. matches r (drop j cs) = []"
      show "\<forall>j\<le>length (c # cs). matches r (drop j (c # cs)) = []"
      proof (intro allI impI)
        fix j assume j: "j \<le> length (c # cs)"
        show "matches r (drop j (c # cs)) = []"
        proof (cases j)
          case 0 then show ?thesis using Nil by simp
        next
          case (Suc k) then show ?thesis using a j by simp
        qed
      qed
    qed
    with Nil Cons.IH[of "Suc i"] show ?thesis by simp
  next
    case (Cons rest rs)
    then have "\<not> (\<forall>j\<le>length (c # cs). matches r (drop j (c # cs)) = [])"
      by (metis drop0 le0 list.distinct(1))
    with Cons show ?thesis by simp
  qed
qed

lemma matches_sound:
  "y \<in> set (matches r s) \<Longrightarrow> \<exists>w. w \<in> lang r \<and> s = w @ y"
proof (induction r s arbitrary: y rule: matches.induct)
  case (1 s)
  then show ?case by simp
next
  case (2 ranges s)
  then show ?case by (cases s) (auto split: if_splits)
next
  case (3 r1 r2 s)
  from "3.prems" obtain x where x: "x \<in> set (matches r1 s)" and y: "y \<in> set (matches r2 x)"
    by auto
  from "3.IH"(1)[OF x] obtain u where u: "u \<in> lang r1" "s = u @ x" by blast
  from "3.IH"(2)[OF x y] obtain v where v: "v \<in> lang r2" "x = v @ y" by blast
  have "u @ v \<in> lang (ReSeq r1 r2)" using u v by auto
  moreover have "s = (u @ v) @ y" using u v by simp
  ultimately show ?case by blast
next
  case (4 r1 r2 s)
  then show ?case by auto
next
  case (5 r s)
  from "5.prems" have "y = s \<or> (\<exists>x\<in>set (matches r s). length x < length s \<and> y \<in> set (matches (ReStar r) x))"
    by (subst (asm) matches.simps(5)) (auto split: if_splits)
  then show ?case
  proof
    assume "y = s"
    then show ?thesis using starNil[of "lang r"] by auto
  next
    assume "\<exists>x\<in>set (matches r s). length x < length s \<and> y \<in> set (matches (ReStar r) x)"
    then obtain x where x: "x \<in> set (matches r s)" "length x < length s"
      and y: "y \<in> set (matches (ReStar r) x)" by blast
    from "5.IH"(1)[OF x(1)] obtain u where u: "u \<in> lang r" "s = u @ x" by blast
    from "5.IH"(2)[OF x(1) x(2) y] obtain v where v: "v \<in> lang (ReStar r)" "x = v @ y" by blast
    have "u @ v \<in> lang (ReStar r)" using u v starApp[of u "lang r" v] by simp
    moreover have "s = (u @ v) @ y" using u v by simp
    ultimately show ?thesis by blast
  qed
qed

lemma matches_complete:
  "w \<in> lang r \<Longrightarrow> y \<in> set (matches r (w @ y))"
proof (induction r arbitrary: w y)
  case ReEps
  then show ?case by simp
next
  case (ReClass ranges)
  then show ?case by auto
next
  case (ReSeq r1 r2)
  from ReSeq.prems obtain u v where w: "w = u @ v" "u \<in> lang r1" "v \<in> lang r2" by auto
  have "v @ y \<in> set (matches r1 (u @ v @ y))" by (rule ReSeq.IH(1)[OF w(2)])
  moreover have "y \<in> set (matches r2 (v @ y))" by (rule ReSeq.IH(2)[OF w(3)])
  ultimately show ?case unfolding w by auto
next
  case (ReAlt r1 r2)
  then show ?case by auto
next
  case (ReStar r)
  from ReStar.prems have "w \<in> starLang (lang r)" by simp
  then show ?case
  proof (induction rule: starLang.induct)
    case starNil
    show ?case by (subst matches.simps(5)) simp
  next
    case (starApp u v)
    show ?case
    proof (cases "u = []")
      case True
      then show ?thesis using starApp.IH by simp
    next
      case False
      have "v @ y \<in> set (matches r (u @ v @ y))" by (rule ReStar.IH[OF starApp.hyps(1)])
      moreover have "length (v @ y) < length (u @ v @ y)" using False by simp
      ultimately show ?thesis
        using starApp.IH by (subst matches.simps(5)) auto
    qed
  qed
qed

lemma matches_lang:
  "set (matches r s) = {y. \<exists>w. w \<in> lang r \<and> s = w @ y}"
  using matches_sound matches_complete by blast

lemma remsOK_minOK: "remsOK A g ys \<Longrightarrow> minOK g ys"
  by (auto simp: remsOK_def minOK_def)

lemma remsOK_mono: "remsOK A g ys \<Longrightarrow> (\<And>c. A c \<Longrightarrow> B c) \<Longrightarrow> remsOK B g ys"
  unfolding remsOK_def by blast

lemma remsOK_single: "remsOK A g [g]"
  by (simp add: remsOK_def)

lemma remsOK_append:
  assumes "remsOK A g xs" and "\<And>z. z \<in> set zs \<Longrightarrow> z = g \<or> (z \<noteq> [] \<and> A (hd z) \<and> suffix g z)"
  shows "remsOK A g (xs @ zs)"
  using assms unfolding remsOK_def by auto

lemma remsOK_append2:
  assumes "xs = [] \<or> remsOK A g xs" and "remsOK A g ys"
  shows "remsOK A g (xs @ ys)"
  using assms unfolding remsOK_def by auto

lemma remsOK_concat:
  assumes "remsOK A g (f y1)"
    and "\<And>y z. y \<in> set ys \<Longrightarrow> z \<in> set (f y) \<Longrightarrow> z = g \<or> (z \<noteq> [] \<and> A (hd z) \<and> suffix g z)"
  shows "remsOK A g (concat (map f (y1 # ys)))"
proof -
  have "concat (map f (y1 # ys)) = f y1 @ concat (map f ys)" by simp
  moreover have "remsOK A g (f y1 @ concat (map f ys))"
    by (rule remsOK_append[OF assms(1)]) (use assms(2) in auto)
  ultimately show ?thesis by simp
qed

lemma minOK_concat:
  assumes "minOK g (f y1)"
    and "\<And>y z. y \<in> set ys \<Longrightarrow> z \<in> set (f y) \<Longrightarrow> suffix g z"
  shows "minOK g (concat (map f (y1 # ys)))"
  using assms unfolding minOK_def by auto

lemma matches_suffix: "y \<in> set (matches r s) \<Longrightarrow> suffix y s"
  using matches_sound[of y r s] by (auto simp: suffix_def)

lemma remsOK_suffix: "remsOK A g (matches r s) \<Longrightarrow> suffix g s"
  unfolding remsOK_def using matches_suffix[of g r s] by (metis hd_in_set)

lemma minOK_suffix: "minOK g (matches r s) \<Longrightarrow> suffix g s"
  unfolding minOK_def using matches_suffix[of g r s] by (metis hd_in_set)

text \<open>Character classes, their runs, and literals.\<close>

lemma matches_star_class_Nil: "matches (ReStar (ReClass C)) [] = [[]]"
  by (subst matches.simps(5)) simp

lemma matches_star_class_Cons:
  "matches (ReStar (ReClass C)) (c # cs) =
     (if inClass c C then matches (ReStar (ReClass C)) cs @ [c # cs] else [c # cs])"
  by (subst matches.simps(5)) simp

lemma star_class_remsOK:
  "remsOK (\<lambda>c. inClass c C) (dropWhile (\<lambda>c. inClass c C) s) (matches (ReStar (ReClass C)) s)"
proof (induction s)
  case Nil
  show ?case by (simp add: matches_star_class_Nil remsOK_def)
next
  case (Cons c cs)
  show ?case
  proof (cases "inClass c C")
    case True
    have "remsOK (\<lambda>c. inClass c C) (dropWhile (\<lambda>c. inClass c C) cs)
            (matches (ReStar (ReClass C)) cs @ [c # cs])"
      by (rule remsOK_append[OF Cons.IH]) (use True in \<open>auto intro: suffix_dropWhile suffix_ConsI\<close>)
    then show ?thesis using True by (simp add: matches_star_class_Cons)
  next
    case False
    then show ?thesis by (simp add: matches_star_class_Cons remsOK_def)
  qed
qed

lemma star_class_run:
  "y \<in> set (matches (ReStar (ReClass C)) s) \<Longrightarrow> \<exists>u. s = u @ y \<and> (\<forall>c\<in>set u. inClass c C)"
proof (induction s)
  case Nil
  then show ?case by (simp add: matches_star_class_Nil)
next
  case (Cons c cs)
  show ?case
  proof (cases "inClass c C \<and> y \<noteq> c # cs")
    case True
    with Cons.prems have "y \<in> set (matches (ReStar (ReClass C)) cs)"
      by (simp add: matches_star_class_Cons)
    from Cons.IH[OF this] obtain u where "cs = u @ y" "\<forall>c\<in>set u. inClass c C" by blast
    then have "c # cs = (c # u) @ y \<and> (\<forall>d\<in>set (c # u). inClass d C)" using True by simp
    then show ?thesis by blast
  next
    case False
    with Cons.prems have "y = c # cs"
      by (auto simp: matches_star_class_Cons split: if_splits)
    then show ?thesis by simp
  qed
qed

lemma matches_plus_class:
  "matches (rePlus (ReClass C)) s =
     (case s of [] \<Rightarrow> [] | c # cs \<Rightarrow> if inClass c C then matches (ReStar (ReClass C)) cs else [])"
  by (cases s) (simp_all add: rePlus_def)

lemma inClass_single: "inClass d [(c, c)] \<longleftrightarrow> d = c"
  by (auto simp: inClass_def)

lemma matches_lit:
  "matches (reLit c) s = (case s of [] \<Rightarrow> [] | d # t \<Rightarrow> if d = c then [t] else [])"
  by (cases s) (simp_all add: reLit_def inClass_single)

lemma matches_opt: "matches (reOpt r) s = matches r s @ [s]"
  by (simp add: reOpt_def)

lemma dropWhile_run:
  assumes "\<forall>c\<in>set u. Q c"
  shows "dropWhile Q (u @ t) = dropWhile Q t"
  using assms by (induction u) auto

lemma remsOK_hd: "remsOK A g ys \<Longrightarrow> hd ys = g"
  by (simp add: remsOK_def)

lemma matches_dot_unit:
  "matches (ReSeq (reLit CHR ''.'') (rePlus (ReClass C))) s =
     (case s of [] \<Rightarrow> [] | d # t \<Rightarrow> if d = CHR ''.'' then matches (rePlus (ReClass C)) t else [])"
  by (cases s) (simp_all add: matches_lit)

lemma dot_inert:
  assumes "s = [] \<or> hd s \<noteq> CHR ''.''"
  shows "matches (reDotted (ReClass C)) s = [s]"
  unfolding reDotted_def using assms
  by (subst matches.simps(5)) (cases s, simp_all add: matches_lit)

lemma dot_step:
  assumes "inClass c C"
  shows "matches (reDotted (ReClass C)) (CHR ''.'' # c # t) =
     concat (map (matches (reDotted (ReClass C))) (matches (ReStar (ReClass C)) t))
       @ [CHR ''.'' # c # t]"
proof -
  have "map (\<lambda>s'. if length s' < length (CHR ''.'' # c # t)
                   then matches (reDotted (ReClass C)) s' else [])
          (matches (ReStar (ReClass C)) t) =
        map (matches (reDotted (ReClass C))) (matches (ReStar (ReClass C)) t)"
  proof (rule map_cong[OF refl])
    fix y assume "y \<in> set (matches (ReStar (ReClass C)) t)"
    then have "length y \<le> length t" using matches_suffix suffix_length_le by blast
    then show "(if length y < length (CHR ''.'' # c # t)
                   then matches (reDotted (ReClass C)) y else []) = matches (reDotted (ReClass C)) y"
      by simp
  qed
  note m = this
  have 1: "matches (reDotted (ReClass C)) (CHR ''.'' # c # t) =
     concat (map (\<lambda>s'. if length s' < length (CHR ''.'' # c # t)
                        then matches (reDotted (ReClass C)) s' else [])
               (matches (ReSeq (reLit CHR ''.'') (rePlus (ReClass C))) (CHR ''.'' # c # t)))
       @ [CHR ''.'' # c # t]"
    unfolding reDotted_def by (rule matches.simps(5))
  have 2: "matches (ReSeq (reLit CHR ''.'') (rePlus (ReClass C))) (CHR ''.'' # c # t) =
     matches (ReStar (ReClass C)) t"
    using assms by (simp add: matches_lit matches_plus_class)
  show ?thesis
    by (subst 1) (simp only: 2 m)
qed

lemma dot_stop:
  assumes "\<not> inClass c C"
  shows "matches (reDotted (ReClass C)) (CHR ''.'' # c # t) = [CHR ''.'' # c # t]"
  unfolding reDotted_def using assms
  by (subst matches.simps(5)) (simp add: matches_lit matches_plus_class)

lemma dot_stop_end:
  "matches (reDotted (ReClass C)) [CHR ''.''] = [[CHR ''.'']]"
  unfolding reDotted_def
  by (subst matches.simps(5)) (simp add: matches_lit matches_plus_class)

lemma run_then_dot:
  assumes nd: "\<not> inClass CHR ''.'' C"
    and ys: "remsOK (\<lambda>c. inClass c C) y1 ys"
    and g: "remsOK (\<lambda>c. inClass c C \<or> c = CHR ''.'') g (matches (reDotted (ReClass C)) y1)"
  shows "remsOK (\<lambda>c. inClass c C \<or> c = CHR ''.'') g (concat (map (matches (reDotted (ReClass C))) ys))"
proof -
  from ys obtain rest where e: "ys = y1 # rest"
    unfolding remsOK_def by (cases ys) auto
  have gy: "suffix g y1" by (rule remsOK_suffix[OF g])
  have "remsOK (\<lambda>c. inClass c C \<or> c = CHR ''.'') g
          (concat (map (matches (reDotted (ReClass C))) (y1 # rest)))"
  proof (rule remsOK_concat[where f = "matches (reDotted (ReClass C))", OF g])
    fix y z assume y: "y \<in> set rest" and z: "z \<in> set (matches (reDotted (ReClass C)) y)"
    from y ys e have c: "y = y1 \<or> (y \<noteq> [] \<and> inClass (hd y) C \<and> suffix y1 y)"
      unfolding remsOK_def by auto
    show "z = g \<or> (z \<noteq> [] \<and> (inClass (hd z) C \<or> hd z = CHR ''.'') \<and> suffix g z)"
    proof (cases "y = y1")
      case True
      with z g show ?thesis unfolding remsOK_def by blast
    next
      case False
      with c have h: "y \<noteq> []" "inClass (hd y) C" "suffix y1 y" by auto
      then have "hd y \<noteq> CHR ''.''" using nd by auto
      then have "matches (reDotted (ReClass C)) y = [y]" by (simp add: dot_inert)
      with z have "z = y" by simp
      moreover have "suffix g y" using gy h(3) by (rule suffix_order.trans)
      ultimately show ?thesis using h by simp
    qed
  qed
  then show ?thesis unfolding e .
qed

lemma dot_remsOK:
  assumes nd: "\<not> inClass CHR ''.'' C"
  shows "remsOK (\<lambda>c. inClass c C \<or> c = CHR ''.'') (hd (matches (reDotted (ReClass C)) s))
           (matches (reDotted (ReClass C)) s)"
proof (induction s rule: length_induct)
  case (1 s)
  let ?D = "reDotted (ReClass C)"
  let ?A = "\<lambda>c. inClass c C \<or> c = CHR ''.''"
  show ?case
  proof (cases "\<exists>c t. s = CHR ''.'' # c # t \<and> inClass c C")
    case True
    then obtain c t where s: "s = CHR ''.'' # c # t" and c: "inClass c C" by blast
    let ?y1 = "dropWhile (\<lambda>c. inClass c C) t"
    have l: "length ?y1 < length s"
      unfolding s using length_dropWhile_le[of "\<lambda>c. inClass c C" t] by simp
    have ih: "remsOK ?A (hd (matches ?D ?y1)) (matches ?D ?y1)"
      using 1 l by blast
    have r: "remsOK ?A (hd (matches ?D ?y1)) (concat (map (matches ?D) (matches (ReStar (ReClass C)) t)))"
      by (rule run_then_dot[OF nd star_class_remsOK ih])
    have "suffix (hd (matches ?D ?y1)) ?y1" by (rule remsOK_suffix[OF ih])
    then have "suffix (hd (matches ?D ?y1)) s"
      unfolding s by (meson suffix_ConsI suffix_dropWhile suffix_order.trans)
    then have "remsOK ?A (hd (matches ?D ?y1))
                 (concat (map (matches ?D) (matches (ReStar (ReClass C)) t)) @ [s])"
      by (intro remsOK_append[OF r]) (auto simp: s)
    then have a: "remsOK ?A (hd (matches ?D ?y1)) (matches ?D s)"
      unfolding s dot_step[OF c] .
    show ?thesis using a remsOK_hd[OF a] by simp
  next
    case False
    have "matches ?D s = [s]"
    proof (cases s)
      case Nil
      then show ?thesis by (simp add: dot_inert)
    next
      case (Cons d t)
      show ?thesis
      proof (cases "d = CHR ''.''")
        case d: True
        show ?thesis
        proof (cases t)
          case Nil
          then show ?thesis using Cons d by (simp add: dot_stop_end)
        next
          case (Cons c t')
          with False \<open>s = d # t\<close> d have "\<not> inClass c C" by auto
          then show ?thesis using Cons \<open>s = d # t\<close> d by (simp add: dot_stop)
        qed
      next
        case False
        then show ?thesis using Cons by (simp add: dot_inert)
      qed
    qed
    then show ?thesis by (simp add: remsOK_def)
  qed
qed

text \<open>A run of a class followed by dotted groups of it.\<close>

lemma star_dot_remsOK:
  assumes nd: "\<not> inClass CHR ''.'' C"
  shows "remsOK (\<lambda>c. inClass c C \<or> c = CHR ''.'')
           (hd (matches (reDotted (ReClass C)) (dropWhile (\<lambda>c. inClass c C) s)))
           (matches (ReSeq (ReStar (ReClass C)) (reDotted (ReClass C))) s)"
  using run_then_dot[OF nd star_class_remsOK dot_remsOK[OF nd], of s] by simp

lemma plus_dot_remsOK:
  assumes nd: "\<not> inClass CHR ''.'' C" and c: "inClass c C"
  shows "remsOK (\<lambda>c. inClass c C \<or> c = CHR ''.'')
           (hd (matches (reDotted (ReClass C)) (dropWhile (\<lambda>c. inClass c C) cs)))
           (matches (ReSeq (rePlus (ReClass C)) (reDotted (ReClass C))) (c # cs))"
  using run_then_dot[OF nd star_class_remsOK dot_remsOK[OF nd], of cs] c
  by (simp add: matches_plus_class)

lemma plus_dot_fail:
  assumes "s = [] \<or> \<not> inClass (hd s) C"
  shows "matches (ReSeq (rePlus (ReClass C)) (reDotted (ReClass C))) s = []"
  using assms by (cases s) (simp_all add: matches_plus_class)

lemma class_facts:
  "\<not> inClass CHR ''.'' digitC" "\<not> inClass CHR ''.'' alnumC" "\<not> inClass CHR ''.'' alphaC"
  "\<not> inClass CHR ''+'' digitC" "\<not> inClass CHR ''+'' alnumC" "\<not> inClass CHR ''+'' alphaC"
  "\<not> inClass CHR ''v'' digitC" "inClass CHR ''-'' alphaC" "inClass CHR ''-'' alnumC"
  "\<not> inClass CHR ''-'' digitC"
  by (simp_all add: inClass_def)

lemma class_sub:
  "inClass c digitC \<Longrightarrow> inClass c alnumC"
  "inClass c alphaC \<Longrightarrow> inClass c alnumC"
  "inClass c digitC \<Longrightarrow> \<not> inClass c alphaC"
  by (auto simp: inClass_def)

lemma remsOK_concat_all:
  assumes "ys \<noteq> []" and "\<And>y. y \<in> set ys \<Longrightarrow> remsOK A g (f y)"
  shows "remsOK A g (concat (map f ys))"
proof -
  from assms(1) obtain y1 rest where e: "ys = y1 # rest" by (cases ys) auto
  have "remsOK A g (concat (map f (y1 # rest)))"
    by (rule remsOK_concat[where f = f]) (use assms(2) e in \<open>auto simp: remsOK_def\<close>)
  then show ?thesis unfolding e .
qed

lemma tail_remsOK: "remsOK inTail (tailEnd s) (matches reTail s)"
  unfolding tailEnd_def reAlnum_def by (rule star_dot_remsOK) (simp add: class_facts)

lemma tailEnd_run:
  assumes "\<forall>c\<in>set u. inClass c alnumC"
  shows "tailEnd (u @ t) = tailEnd t"
  by (simp add: tailEnd_def dropWhile_run[OF assms])

lemma plus_tail_remsOK:
  assumes sub: "\<And>d. inClass d C \<Longrightarrow> inClass d alnumC" and c: "inClass c C"
  shows "remsOK inTail (tailEnd (c # cs)) (matches (ReSeq (rePlus (ReClass C)) reTail) (c # cs))"
proof -
  have m: "matches (ReSeq (rePlus (ReClass C)) reTail) (c # cs) =
           concat (map (matches reTail) (matches (ReStar (ReClass C)) cs))"
    using c by (simp add: matches_plus_class)
  have "remsOK inTail (tailEnd (c # cs)) (concat (map (matches reTail) (matches (ReStar (ReClass C)) cs)))"
  proof (rule remsOK_concat_all)
    show "matches (ReStar (ReClass C)) cs \<noteq> []"
      using star_class_remsOK[of C cs] by (simp add: remsOK_def)
  next
    fix y assume "y \<in> set (matches (ReStar (ReClass C)) cs)"
    from star_class_run[OF this] obtain u where u: "cs = u @ y" "\<forall>d\<in>set u. inClass d C" by blast
    have "\<forall>d\<in>set (c # u). inClass d alnumC" using u(2) c sub by auto
    from tailEnd_run[OF this, of y] have "tailEnd (c # cs) = tailEnd y" using u(1) by simp
    then show "remsOK inTail (tailEnd (c # cs)) (matches reTail y)"
      using tail_remsOK[of y] by simp
  qed
  then show ?thesis unfolding m .
qed

lemma plus_tail_fail:
  assumes "s = [] \<or> \<not> inClass (hd s) C"
  shows "matches (ReSeq (rePlus (ReClass C)) reTail) s = []"
  using assms by (cases s) (simp_all add: matches_plus_class)

lemma tailEnd_dash: "tailEnd (CHR ''-'' # t) = tailEnd t"
  using tailEnd_run[of "[CHR ''-'']" t] by (simp add: class_facts)

text \<open>The two alternatives of the pre-release group, and the group.\<close>

lemma pre1_cases: "matches rePre1 s = [] \<or> remsOK inTail (tailEnd s) (matches rePre1 s)"
proof (cases s)
  case Nil
  then show ?thesis by (simp add: matches_lit)
next
  case (Cons d t)
  show ?thesis
  proof (cases "d = CHR ''-'' \<and> t \<noteq> [] \<and> inClass (hd t) digitC")
    case True
    then obtain c cs where t: "t = c # cs" "inClass c digitC" by (cases t) auto
    have "remsOK inTail (tailEnd (c # cs)) (matches (ReSeq (rePlus (ReClass digitC)) reTail) (c # cs))"
      by (rule plus_tail_remsOK[OF class_sub(1) t(2)])
    then show ?thesis
      using True Cons t by (simp add: matches_lit reDigit_def tailEnd_dash)
  next
    case False
    then have "d \<noteq> CHR ''-'' \<or> matches (ReSeq (rePlus (ReClass digitC)) reTail) t = []"
      using plus_tail_fail[of t digitC] by auto
    then show ?thesis using Cons by (auto simp: matches_lit reDigit_def)
  qed
qed

lemma pre1_fail: "s = [] \<or> \<not> inClass (hd s) alphaC \<Longrightarrow> matches rePre1 s = []"
  by (cases s) (auto simp: matches_lit class_facts)

lemma matches_pre2:
  "matches rePre2 s =
     (case s of [] \<Rightarrow> [] | d # t \<Rightarrow>
        if d = CHR ''-'' then matches (ReSeq (rePlus reAlpha) reTail) t else [])
     @ matches (ReSeq (rePlus reAlpha) reTail) s"
  by (cases s) (simp_all add: matches_opt matches_lit)

lemma pre2_ok:
  assumes "s \<noteq> []" "inClass (hd s) alphaC"
  shows "remsOK inTail (tailEnd s) (matches rePre2 s)"
proof -
  from assms obtain c cs where s: "s = c # cs" "inClass c alphaC" by (cases s) auto
  have b: "remsOK inTail (tailEnd s) (matches (ReSeq (rePlus reAlpha) reTail) s)"
    unfolding s reAlpha_def by (rule plus_tail_remsOK[OF class_sub(2) s(2)])
  have a: "(case s of [] \<Rightarrow> [] | d # t \<Rightarrow>
        if d = CHR ''-'' then matches (ReSeq (rePlus reAlpha) reTail) t else []) = [] \<or>
     remsOK inTail (tailEnd s) (case s of [] \<Rightarrow> [] | d # t \<Rightarrow>
        if d = CHR ''-'' then matches (ReSeq (rePlus reAlpha) reTail) t else [])"
  proof (cases "c = CHR ''-'' \<and> cs \<noteq> [] \<and> inClass (hd cs) alphaC")
    case True
    then obtain e es where cs: "cs = e # es" "inClass e alphaC" by (cases cs) auto
    have "remsOK inTail (tailEnd (e # es)) (matches (ReSeq (rePlus (ReClass alphaC)) reTail) (e # es))"
      by (rule plus_tail_remsOK[OF class_sub(2) cs(2)])
    then show ?thesis using True s cs by (simp add: reAlpha_def tailEnd_dash)
  next
    case False
    then have "c \<noteq> CHR ''-'' \<or> matches (ReSeq (rePlus (ReClass alphaC)) reTail) cs = []"
      using plus_tail_fail[of cs alphaC] by auto
    then show ?thesis using s by (auto simp: reAlpha_def)
  qed
  show ?thesis
    unfolding matches_pre2 by (rule remsOK_append2[OF a b])
qed

lemma pre2_fail: "s = [] \<or> \<not> inClass (hd s) alphaC \<Longrightarrow> matches rePre2 s = []"
  unfolding matches_pre2
  by (cases s) (auto simp: reAlpha_def matches_plus_class class_facts)

lemma matches_rePre: "matches rePre s = matches rePre1 s @ matches rePre2 s"
  by (simp add: rePre_def)

lemma pre_ok:
  assumes "s \<noteq> []" "inClass (hd s) alphaC"
  shows "remsOK inTail (tailEnd s) (matches rePre s)"
  unfolding matches_rePre by (rule remsOK_append2[OF pre1_cases pre2_ok[OF assms]])

lemma pre_fail:
  assumes "s = [] \<or> \<not> inClass (hd s) alphaC"
  shows "matches rePre s = []"
  unfolding matches_rePre pre1_fail[OF assms] pre2_fail[OF assms] by (rule append_Nil)

lemma preOpt_ok:
  "remsOK inTail (if s \<noteq> [] \<and> inClass (hd s) alphaC then tailEnd s else s) (matches (reOpt rePre) s)"
proof (cases "s \<noteq> [] \<and> inClass (hd s) alphaC")
  case True
  have p: "remsOK inTail (tailEnd s) (matches rePre s)" using True by (simp add: pre_ok)
  have "suffix (tailEnd s) s"
    using remsOK_suffix[OF p] .
  then have "remsOK inTail (tailEnd s) (matches rePre s @ [s])"
    using True class_sub(2) by (intro remsOK_append[OF p]) auto
  then show ?thesis using True by (simp add: matches_opt)
next
  case False
  then have "matches rePre s = []" by (intro pre_fail) auto
  then have "matches (reOpt rePre) s = [s]" by (simp only: matches_opt append_Nil)
  moreover have "(if s \<noteq> [] \<and> inClass (hd s) alphaC then tailEnd s else s) = s"
    by (rule if_not_P[OF False])
  ultimately show ?thesis by (simp only: remsOK_single)
qed

lemma minOK_single: "minOK g [g]"
  by (simp add: minOK_def)

lemma minOK_hd: "minOK g ys \<Longrightarrow> minOK (hd ys) ys"
  by (simp add: minOK_def)

lemma matches_reMeta:
  "matches reMeta s =
     (case s of [] \<Rightarrow> [] | d # t \<Rightarrow> if d = CHR ''+'' then matches reMeta1 t else [])"
  by (cases s) (simp_all add: reMeta_def matches_lit)

lemma meta_cases: "matches reMeta s = [] \<or> (\<exists>g. remsOK inTail g (matches reMeta s))"
proof (cases "\<exists>c cs. s = CHR ''+'' # c # cs \<and> inClass c alnumC")
  case True
  then obtain c cs where s: "s = CHR ''+'' # c # cs" and c: "inClass c alnumC" by blast
  have "remsOK inTail (hd (matches (reDotted (ReClass alnumC)) (dropWhile (\<lambda>c. inClass c alnumC) cs)))
           (matches (ReSeq (rePlus (ReClass alnumC)) (reDotted (ReClass alnumC))) (c # cs))"
    by (rule plus_dot_remsOK[OF class_facts(2) c])
  then have "\<exists>g. remsOK inTail g (matches reMeta1 (c # cs))"
    unfolding reAlnum_def by blast
  moreover have "matches reMeta s = matches reMeta1 (c # cs)"
    unfolding matches_reMeta s by simp
  ultimately show ?thesis by simp
next
  case False
  have "matches reMeta s = []"
  proof (cases s)
    case Nil
    then show ?thesis by (simp add: matches_reMeta)
  next
    case (Cons d t)
    show ?thesis
    proof (cases "d = CHR ''+''")
      case True
      with False Cons have "t = [] \<or> \<not> inClass (hd t) alnumC" by (cases t) auto
      then have "matches (ReSeq (rePlus (ReClass alnumC)) (reDotted (ReClass alnumC))) t = []"
        by (rule plus_dot_fail)
      then have "matches reMeta1 t = []" unfolding reAlnum_def .
      then show ?thesis unfolding matches_reMeta Cons using True by simp
    next
      case False
      then show ?thesis unfolding matches_reMeta Cons by simp
    qed
  qed
  then show ?thesis by simp
qed

lemma metaOpt_min: "minOK (hd (matches (reOpt reMeta) s)) (matches (reOpt reMeta) s)"
proof -
  have e: "matches (reOpt reMeta) s = matches reMeta s @ [s]" by (rule matches_opt)
  from meta_cases[of s] show ?thesis
  proof
    assume "matches reMeta s = []"
    then show ?thesis unfolding e by (simp add: minOK_def)
  next
    assume "\<exists>g. remsOK inTail g (matches reMeta s)"
    then obtain g where g: "remsOK inTail g (matches reMeta s)" by blast
    have "suffix g s" by (rule remsOK_suffix[OF g])
    then have "minOK g (matches reMeta s @ [s])"
      using remsOK_minOK[OF g] by (auto simp: minOK_def)
    then show ?thesis unfolding e by (rule minOK_hd)
  qed
qed

lemma metaOpt_inert:
  assumes "s = [] \<or> hd s \<noteq> CHR ''+''"
  shows "matches (reOpt reMeta) s = [s]"
proof -
  have "matches reMeta s = []" using assms unfolding matches_reMeta by (cases s) auto
  then show ?thesis by (simp only: matches_opt append_Nil)
qed

lemma matches_reRest:
  "matches reRest s = concat (map (matches (reOpt reMeta)) (matches (reOpt rePre) s))"
  by simp

lemma rest_min: "minOK (hd (matches reRest s)) (matches reRest s)"
proof -
  let ?g1 = "if s \<noteq> [] \<and> inClass (hd s) alphaC then tailEnd s else s"
  have p: "remsOK inTail ?g1 (matches (reOpt rePre) s)" by (rule preOpt_ok)
  then obtain rest where e: "matches (reOpt rePre) s = ?g1 # rest"
    unfolding remsOK_def by (cases "matches (reOpt rePre) s") auto
  let ?g = "hd (matches (reOpt reMeta) ?g1)"
  have gs: "suffix ?g ?g1" by (rule minOK_suffix[OF metaOpt_min])
  have "minOK ?g (concat (map (matches (reOpt reMeta)) (?g1 # rest)))"
  proof (rule minOK_concat[where f = "matches (reOpt reMeta)", OF metaOpt_min])
    fix y z assume y: "y \<in> set rest" and z: "z \<in> set (matches (reOpt reMeta) y)"
    from y p e have c: "y = ?g1 \<or> (y \<noteq> [] \<and> inTail (hd y) \<and> suffix ?g1 y)"
      unfolding remsOK_def by auto
    show "suffix ?g z"
    proof (cases "y = ?g1")
      case True
      with z metaOpt_min[of ?g1] show ?thesis unfolding minOK_def by blast
    next
      case False
      with c have h: "y \<noteq> []" "inTail (hd y)" "suffix ?g1 y" by auto
      then have "hd y \<noteq> CHR ''+''" using class_facts(5) by auto
      then have "matches (reOpt reMeta) y = [y]" by (intro metaOpt_inert) simp
      with z have "z = y" by simp
      then show ?thesis using gs h(3) by (auto intro: suffix_order.trans)
    qed
  qed
  then have "minOK ?g (matches reRest s)"
    unfolding matches_reRest e .
  then show ?thesis by (rule minOK_hd)
qed

lemma rest_inert:
  assumes "s = [] \<or> (\<not> inClass (hd s) alphaC \<and> hd s \<noteq> CHR ''+'')"
  shows "matches reRest s = [s]"
proof -
  have "matches rePre s = []" using assms by (intro pre_fail) auto
  then have 1: "matches (reOpt rePre) s = [s]" by (simp only: matches_opt append_Nil)
  have 2: "matches (reOpt reMeta) s = [s]" using assms by (intro metaOpt_inert) auto
  show ?thesis unfolding matches_reRest 1 using 2 by simp
qed

lemma core_ok:
  assumes "inClass c digitC"
  shows "\<exists>g. remsOK inCore g (matches reCore (c # cs))"
proof -
  have "remsOK inCore (hd (matches (reDotted (ReClass digitC)) (dropWhile (\<lambda>c. inClass c digitC) cs)))
           (matches (ReSeq (rePlus (ReClass digitC)) (reDotted (ReClass digitC))) (c # cs))"
    by (rule plus_dot_remsOK[OF class_facts(1) assms])
  then show ?thesis unfolding reCore_def reDigit_def by blast
qed

lemma core_fail:
  assumes "s = [] \<or> \<not> inClass (hd s) digitC"
  shows "matches reCore s = []"
  unfolding reCore_def reDigit_def using assms by (rule plus_dot_fail)

lemma matches_reBody: "matches reBody s = concat (map (matches reRest) (matches reCore s))"
  by simp

lemma body_fail:
  assumes "s = [] \<or> \<not> inClass (hd s) digitC"
  shows "matches reBody s = []"
  unfolding matches_reBody core_fail[OF assms] by simp

lemma body_min:
  assumes "inClass c digitC"
  shows "minOK (hd (matches reBody (c # cs))) (matches reBody (c # cs))"
proof -
  from core_ok[OF assms, of cs] obtain g1 where p: "remsOK inCore g1 (matches reCore (c # cs))"
    by blast
  then obtain rest where e: "matches reCore (c # cs) = g1 # rest"
    unfolding remsOK_def by (cases "matches reCore (c # cs)") auto
  let ?g = "hd (matches reRest g1)"
  have gs: "suffix ?g g1" by (rule minOK_suffix[OF rest_min])
  have "minOK ?g (concat (map (matches reRest) (g1 # rest)))"
  proof (rule minOK_concat[where f = "matches reRest", OF rest_min])
    fix y z assume y: "y \<in> set rest" and z: "z \<in> set (matches reRest y)"
    from y p e have c: "y = g1 \<or> (y \<noteq> [] \<and> inCore (hd y) \<and> suffix g1 y)"
      unfolding remsOK_def by auto
    show "suffix ?g z"
    proof (cases "y = g1")
      case True
      with z rest_min[of g1] show ?thesis unfolding minOK_def by blast
    next
      case False
      with c have h: "y \<noteq> []" "inCore (hd y)" "suffix g1 y" by auto
      then have "\<not> inClass (hd y) alphaC \<and> hd y \<noteq> CHR ''+''"
        using class_facts(3,4) class_sub(3) by auto
      then have "matches reRest y = [y]" by (intro rest_inert) simp
      with z have "z \<in> set [y]" by (simp only:)
      then have "z = y" by simp
      then show ?thesis using gs h(3) by (auto intro: suffix_order.trans)
    qed
  qed
  then have "minOK ?g (matches reBody (c # cs))"
    unfolding matches_reBody e .
  then show ?thesis by (rule minOK_hd)
qed

lemma matches_versionRegexp:
  "matches versionRegexp s =
     (case s of [] \<Rightarrow> [] | d # t \<Rightarrow> if d = CHR ''v'' then matches reBody t else [])
     @ matches reBody s"
  by (cases s) (simp_all add: versionRegexp_def matches_opt matches_lit)

lemma versionRegexp_cases:
  "matches versionRegexp s = [] \<or> minOK (hd (matches versionRegexp s)) (matches versionRegexp s)"
proof (cases s)
  case Nil
  have "matches versionRegexp [] = []"
    unfolding matches_versionRegexp body_fail[OF disjI1[OF refl]] by simp
  then show ?thesis unfolding Nil by (rule disjI1)
next
  case (Cons d t)
  show ?thesis
  proof (cases "d = CHR ''v''")
    case True
    have b: "matches reBody s = []" unfolding Cons True by (rule body_fail) (simp add: class_facts)
    have e: "matches versionRegexp s = matches reBody t"
      unfolding matches_versionRegexp b unfolding Cons using True by simp
    show ?thesis
    proof (cases "t \<noteq> [] \<and> inClass (hd t) digitC")
      case True
      then obtain c cs where t: "t = c # cs" "inClass c digitC" by (cases t) auto
      have "minOK (hd (matches reBody t)) (matches reBody t)"
        unfolding t(1) by (rule body_min[OF t(2)])
      then show ?thesis unfolding e by (rule disjI2)
    next
      case False
      then have "matches reBody t = []" by (intro body_fail) auto
      then show ?thesis unfolding e by (rule disjI1)
    qed
  next
    case False
    have e: "matches versionRegexp s = matches reBody s"
      unfolding matches_versionRegexp unfolding Cons using False by simp
    show ?thesis
    proof (cases "inClass d digitC")
      case True
      have "minOK (hd (matches reBody s)) (matches reBody s)"
        unfolding Cons by (rule body_min[OF True])
      then show ?thesis unfolding e by (rule disjI2)
    next
      case False
      then have "matches reBody s = []" unfolding Cons by (intro body_fail) auto
      then show ?thesis unfolding e by (rule disjI1)
    qed
  qed
qed

lemma versionRegexp_longest:
  assumes "y \<in> set (matches versionRegexp s)"
  shows "suffix (hd (matches versionRegexp s)) y"
  using versionRegexp_cases[of s] assms unfolding minOK_def by auto

lemma findFrom_hd:
  "findFrom r i s = Some (lo, hi) \<Longrightarrow>
     hi = lo + (length (drop (lo - i) s) - length (hd (matches r (drop (lo - i) s))))"
proof (induction s arbitrary: i)
  case Nil
  then show ?case by (auto split: list.splits)
next
  case (Cons c cs)
  show ?case
  proof (cases "matches r (c # cs)")
    case Nil
    with Cons.prems have f: "findFrom r (Suc i) cs = Some (lo, hi)" by simp
    from findFrom_Some[OF f] have lo: "Suc i \<le> lo" by simp
    then have d: "drop (lo - i) (c # cs) = drop (lo - Suc i) cs"
      by (simp add: drop_Cons')
    show ?thesis unfolding d by (rule Cons.IH[OF f])
  next
    case (Cons rest rs)
    with Cons.prems show ?thesis by auto
  qed
qed

lemma lang_prefix_matches:
  "(\<exists>w. w \<in> lang r \<and> prefix w s) \<longleftrightarrow> matches r s \<noteq> []"
proof
  assume "\<exists>w. w \<in> lang r \<and> prefix w s"
  then obtain w y where "w \<in> lang r" "s = w @ y" by (auto simp: prefix_def)
  then have "y \<in> set (matches r s)" using matches_complete by blast
  then show "matches r s \<noteq> []" by auto
next
  assume "matches r s \<noteq> []"
  then obtain y where "y \<in> set (matches r s)" by (cases "matches r s") auto
  from matches_sound[OF this] show "\<exists>w. w \<in> lang r \<and> prefix w s" by (auto simp: prefix_def)
qed

lemma findStringIndex_longest:
  assumes "findStringIndex versionRegexp name = Some (lo, hi)"
  shows "lo \<le> hi" and "hi \<le> length name"
    and "take (hi - lo) (drop lo name) \<in> lang versionRegexp"
    and "\<And>i w. i < lo \<Longrightarrow> w \<in> lang versionRegexp \<Longrightarrow> \<not> prefix w (drop i name)"
    and "\<And>w. w \<in> lang versionRegexp \<Longrightarrow> prefix w (drop lo name) \<Longrightarrow> length w \<le> hi - lo"
proof -
  let ?s = "drop lo name"
  let ?g = "hd (matches versionRegexp ?s)"
  from assms have f: "findFrom versionRegexp 0 name = Some (lo, hi)"
    by (simp add: findStringIndex_def)
  from findFrom_Some[OF f] have b: "lo \<le> hi" "hi \<le> length name"
    and ne: "matches versionRegexp ?s \<noteq> []"
    and no: "\<forall>j<lo. matches versionRegexp (drop j name) = []"
    by simp_all
  from findFrom_hd[OF f] have hi: "hi = lo + (length ?s - length ?g)" by simp
  show "lo \<le> hi" "hi \<le> length name" by (rule b)+
  from ne have g: "?g \<in> set (matches versionRegexp ?s)" by simp
  from matches_sound[OF g] obtain w0 where w0: "w0 \<in> lang versionRegexp" "?s = w0 @ ?g" by blast
  have "length ?s = length w0 + length ?g"
    by (subst w0(2)) simp
  then have l: "hi - lo = length w0" using hi by simp
  have "take (hi - lo) ?s = w0"
    unfolding l by (subst w0(2)) simp
  then show "take (hi - lo) ?s \<in> lang versionRegexp" using w0(1) by simp
  show "\<not> prefix w (drop i name)" if "i < lo" "w \<in> lang versionRegexp" for i w
    using lang_prefix_matches[of versionRegexp "drop i name"] no that by blast
  show "length w \<le> hi - lo" if w: "w \<in> lang versionRegexp" "prefix w ?s" for w
  proof -
    from w(2) obtain y where y: "?s = w @ y" by (auto simp: prefix_def)
    have "y \<in> set (matches versionRegexp (w @ y))" by (rule matches_complete[OF w(1)])
    then have "y \<in> set (matches versionRegexp ?s)" using y by simp
    then have "suffix ?g y" by (rule versionRegexp_longest)
    then have "length ?g \<le> length y" by (rule suffix_length_le)
    moreover have "length w + length y = length w0 + length ?g"
      using arg_cong[OF y, of length] arg_cong[OF w0(2), of length] by simp
    ultimately show ?thesis unfolding l by simp
  qed
qed

text \<open>
  Claim C6, as amended.  In \<open>app-v1.2.3-rc.1+build5.tar.gz\<close> the match of
  \<open>versionRegexp\<close> starts at offset 4 and ends at offset 29: the text handed to the
  version parser is \<open>v1.2.3-rc.1+build5.tar.gz\<close>, since the build-metadata group goes on
  through the dotted parts \<open>.tar\<close> and \<open>.gz\<close>, and \<open>guessVersion\<close> returns what
  the parser makes of that text together with the offset 4.  For \<open>no-version-here\<close> it
  returns nothing.  The text \<open>1.2.3-rc.10\<close> is matched as a whole.  In general the match
  found is the leftmost and, of the matches that start there, the longest: the text
  between the offsets found is in the language of the pattern, no text of the language
  starts at an earlier offset, and every text of the language that starts at the offset
  found is at most as long.  \<open>guessVersion\<close> hands that text to the parser and returns
  its result with the start offset.  Nothing is found only when no text of the language
  starts at any offset.
\<close>

theorem guessVersion_leftmost:
  "findStringIndex versionRegexp ''app-v1.2.3-rc.1+build5.tar.gz'' = Some (4, 29) \<and>
   guessVersion lib ''app-v1.2.3-rc.1+build5.tar.gz'' =
     map_option (\<lambda>ver. (ver, 4)) (newVersion lib ''v1.2.3-rc.1+build5.tar.gz'') \<and>
   guessVersion lib ''no-version-here'' = None \<and>
   findStringIndex versionRegexp ''1.2.3-rc.10'' = Some (0, 11) \<and>
   (\<forall>name lo hi. findStringIndex versionRegexp name = Some (lo, hi) \<longrightarrow>
      lo \<le> hi \<and> hi \<le> length name \<and>
      take (hi - lo) (drop lo name) \<in> lang versionRegexp \<and>
      (\<forall>i w. i < lo \<and> w \<in> lang versionRegexp \<longrightarrow> \<not> prefix w (drop i name)) \<and>
      (\<forall>w. w \<in> lang versionRegexp \<and> prefix w (drop lo name) \<longrightarrow> length w \<le> hi - lo) \<and>
      guessVersion lib name =
        map_option (\<lambda>ver. (ver, lo)) (newVersion lib (take (hi - lo) (drop lo name)))) \<and>
   (\<forall>name. findStringIndex versionRegexp name = None \<longleftrightarrow>
      (\<forall>i w. i \<le> length name \<and> w \<in> lang versionRegexp \<longrightarrow> \<not> prefix w (drop i name))) \<and>
   (\<forall>name. findStringIndex versionRegexp name = None \<longrightarrow> guessVersion lib name = None)"
proof -
  have a: "findStringIndex versionRegexp ''app-v1.2.3-rc.1+build5.tar.gz'' = Some (4, 29)"
    by code_simp
  have b: "findStringIndex versionRegexp ''no-version-here'' = None"
    by code_simp
  have c: "findStringIndex versionRegexp ''1.2.3-rc.10'' = Some (0, 11)"
    by code_simp
  have g1: "guessVersion lib ''app-v1.2.3-rc.1+build5.tar.gz'' =
     map_option (\<lambda>ver. (ver, 4)) (newVersion lib ''v1.2.3-rc.1+build5.tar.gz'')"
    by (simp add: guessVersion_def a split: option.splits)
  have g2: "guessVersion lib ''no-version-here'' = None"
    by (simp add: guessVersion_def b)
  have l: "lo \<le> hi \<and> hi \<le> length name \<and>
      take (hi - lo) (drop lo name) \<in> lang versionRegexp \<and>
      (\<forall>i w. i < lo \<and> w \<in> lang versionRegexp \<longrightarrow> \<not> prefix w (drop i name)) \<and>
      (\<forall>w. w \<in> lang versionRegexp \<and> prefix w (drop lo name) \<longrightarrow> length w \<le> hi - lo) \<and>
      guessVersion lib name =
        map_option (\<lambda>ver. (ver, lo)) (newVersion lib (take (hi - lo) (drop lo name)))"
    if f: "findStringIndex versionRegexp name = Some (lo, hi)" for name lo hi
  proof -
    have "guessVersion lib name =
        map_option (\<lambda>ver. (ver, lo)) (newVersion lib (take (hi - lo) (drop lo name)))"
      by (simp add: guessVersion_def f split: option.splits)
    then show ?thesis
      using findStringIndex_longest[OF f] by blast
  qed
  have n: "findStringIndex versionRegexp name = None \<longleftrightarrow>
      (\<forall>i w. i \<le> length name \<and> w \<in> lang versionRegexp \<longrightarrow> \<not> prefix w (drop i name))" for name
  proof -
    have "findStringIndex versionRegexp name = None \<longleftrightarrow>
      (\<forall>i\<le>length name. matches versionRegexp (drop i name) = [])"
      by (simp add: findStringIndex_def findFrom_None)
    also have "\<dots> \<longleftrightarrow>
      (\<forall>i\<le>length name. \<not> (\<exists>w. w \<in> lang versionRegexp \<and> prefix w (drop i name)))"
      unfolding lang_prefix_matches by simp
    finally show ?thesis by blast
  qed
  have z: "guessVersion lib name = None" if "findStringIndex versionRegexp name = None" for name
    using that by (simp add: guessVersion_def)
  show ?thesis using a g1 g2 c l n z by blast
qed

theorem guessVersion_leftmost_witness:
  "findStringIndex versionRegexp ''app-v1.2.3-rc.1+build5.tar.gz'' = Some (4, 29) \<and>
   ''v1.2.3-rc.1+build5.tar.gz'' \<in> lang versionRegexp \<and>
   guessVersion sampleVersionLib ''app-v1.2.3-rc.1+build5.tar.gz'' =
     Some (''v1.2.3-rc.1+build5.tar.gz'', 4)"
proof -
  let ?name = "''app-v1.2.3-rc.1+build5.tar.gz''"
  have a: "findStringIndex versionRegexp ?name = Some (4, 29)"
    using guessVersion_leftmost[of sampleVersionLib] by blast
  have t: "take (29 - 4) (drop 4 ?name) = ''v1.2.3-rc.1+build5.tar.gz''"
    by simp
  have "take (29 - 4) (drop 4 ?name) \<in> lang versionRegexp"
    using guessVersion_leftmost[of sampleVersionLib] a by blast
  then have l: "''v1.2.3-rc.1+build5.tar.gz'' \<in> lang versionRegexp"
    unfolding t .
  have g: "guessVersion sampleVersionLib ?name = Some (''v1.2.3-rc.1+build5.tar.gz'', 4)"
    using guessVersion_leftmost[of sampleVersionLib] by (simp add: sampleVersionLib_def)
  show ?thesis using a l g by simp
qed

text \<open>
  The claim as stated names \<open>v1.2.3-rc.1+build5\<close> as the matched text; the match is
  longer.
\<close>

theorem guessVersion_counterexample:
  "guessVersion sampleVersionLib ''app-v1.2.3-rc.1+build5.tar.gz'' =
     Some (''v1.2.3-rc.1+build5.tar.gz'', 4) \<and>
   take (29 - 4) (drop 4 ''app-v1.2.3-rc.1+build5.tar.gz'') \<noteq> ''v1.2.3-rc.1+build5''"
  by code_simp

section \<open>Properties of the sort\<close>











section \<open>Properties of the deduplication\<close>




lemma compactFrom_tl:
  "compactFrom eq q bs =
     (if bs \<noteq> [] \<and> eq (hd bs) q then tl (slicesCompactFunc eq bs) else slicesCompactFunc eq bs)"
  by (cases bs) auto











lemma sortLinks_plain:
  "\<not> versionSort flags \<Longrightarrow>
   sortLinks flags lib a b =
     (if (Size a \<noteq> None) \<noteq> (Size b \<noteq> None) then (if Size a \<noteq> None then - 1 else 1)
      else stringsCompare (Name a) (Name b))"
  by (auto simp: sortLinks_def)

lemma sortLinks_plain_trans:
  assumes v: "\<not> versionSort flags"
    and ab: "sortLinks flags lib a b \<le> 0" and bc: "sortLinks flags lib b c \<le> 0"
  shows "sortLinks flags lib a c \<le> 0"
proof -
  have 1: "Size a \<noteq> None \<or> Size b = None"
    using ab unfolding sortLinks_plain[OF v] by (auto split: if_splits)
  have 2: "Size b \<noteq> None \<or> Size c = None"
    using bc unfolding sortLinks_plain[OF v] by (auto split: if_splits)
  show ?thesis
  proof (cases "(Size a \<noteq> None) = (Size c \<noteq> None)")
    case False
    then show ?thesis using 1 2 unfolding sortLinks_plain[OF v] by auto
  next
    case True
    then have g: "(Size a \<noteq> None) = (Size b \<noteq> None)" "(Size b \<noteq> None) = (Size c \<noteq> None)"
      using 1 2 by auto
    have "stringsCompare (Name a) (Name b) \<le> 0" "stringsCompare (Name b) (Name c) \<le> 0"
      using ab bc g unfolding sortLinks_plain[OF v] by auto
    then have "stringsCompare (Name a) (Name c) \<le> 0" by (rule stringsCompare_trans)
    then show ?thesis using True unfolding sortLinks_plain[OF v] by simp
  qed
qed

lemma sortLinks_plain_total:
  assumes v: "\<not> versionSort flags" and ab: "\<not> sortLinks flags lib a b < 0"
  shows "sortLinks flags lib b a \<le> 0"
  using ab stringsCompare_flip[of "Name a" "Name b"] unfolding sortLinks_plain[OF v]
  by (auto split: if_splits)

text \<open>
  Without version sorting the comparison is a total preorder, and the sorted list is in
  order: the entries with a size come before those without, and within each group the
  names ascend.
\<close>

theorem sortedItems_plain_sorted:
  "\<not> versionSort flags \<longrightarrow>
   sorted_wrt (\<lambda>a b. (Size a \<noteq> None \<and> Size b = None) \<or>
                     ((Size a \<noteq> None) = (Size b \<noteq> None) \<and> stringsCompare (Name a) (Name b) \<le> 0))
     (sortedItems flags lib ms ss)"
proof
  assume v: "\<not> versionSort flags"
  have "sorted_wrt (\<lambda>a b. sortLinks flags lib a b \<le> 0) (sortedItems flags lib ms ss)"
    unfolding sortedItems_def slicesSortStableFunc_def
    by (rule sorted_insertionSortCmpFunc)
       (erule (1) sortLinks_plain_trans[OF v], erule sortLinks_plain_total[OF v])
  moreover have "sortLinks flags lib a b \<le> 0 \<longleftrightarrow>
      (Size a \<noteq> None \<and> Size b = None) \<or>
      ((Size a \<noteq> None) = (Size b \<noteq> None) \<and> stringsCompare (Name a) (Name b) \<le> 0)" for a b
    unfolding sortLinks_plain[OF v] by auto
  ultimately show "sorted_wrt (\<lambda>a b. (Size a \<noteq> None \<and> Size b = None) \<or>
                     ((Size a \<noteq> None) = (Size b \<noteq> None) \<and> stringsCompare (Name a) (Name b) \<le> 0))
     (sortedItems flags lib ms ss)"
    by simp
qed

theorem sortedItems_plain_sorted_witness:
  "sortedItems \<lparr>readme = False, skipReadme = False, versionSort = False\<rparr> sampleVersionLib
     [dirItem ''sub/'']
     [objectItem [] (sampleObject ''b.txt'' ''e'' 0), dirItem ''sub/'',
      objectItem [] (sampleObject ''a.txt'' ''e'' 0)]
   = [objectItem [] (sampleObject ''a.txt'' ''e'' 0), objectItem [] (sampleObject ''b.txt'' ''e'' 0),
      dirItem ''sub/'', dirItem ''sub/''] \<and>
   stringsCompare ''a.txt'' ''b.txt'' \<le> 0"
proof -
  let ?f = "\<lparr>readme = False, skipReadme = False, versionSort = False\<rparr>"
  have s: "sortedItems ?f sampleVersionLib [dirItem ''sub/'']
     [objectItem [] (sampleObject ''b.txt'' ''e'' 0), dirItem ''sub/'',
      objectItem [] (sampleObject ''a.txt'' ''e'' 0)]
   = [objectItem [] (sampleObject ''a.txt'' ''e'' 0), objectItem [] (sampleObject ''b.txt'' ''e'' 0),
      dirItem ''sub/'', dirItem ''sub/'']"
    by code_simp
  have n: "Name (objectItem [] (sampleObject ''a.txt'' ''e'' 0)) = ''a.txt''"
    "Name (objectItem [] (sampleObject ''b.txt'' ''e'' 0)) = ''b.txt''"
    by code_simp+
  have "sorted_wrt (\<lambda>a b. (Size a \<noteq> None \<and> Size b = None) \<or>
                     ((Size a \<noteq> None) = (Size b \<noteq> None) \<and> stringsCompare (Name a) (Name b) \<le> 0))
     [objectItem [] (sampleObject ''a.txt'' ''e'' 0), objectItem [] (sampleObject ''b.txt'' ''e'' 0),
      dirItem ''sub/'', dirItem ''sub/'']"
    using sortedItems_plain_sorted[of ?f sampleVersionLib "[dirItem ''sub/'']"
        "[objectItem [] (sampleObject ''b.txt'' ''e'' 0), dirItem ''sub/'',
          objectItem [] (sampleObject ''a.txt'' ''e'' 0)]"]
    unfolding s by simp
  then have "stringsCompare ''a.txt'' ''b.txt'' \<le> 0"
    unfolding sorted_wrt.simps n by (simp add: objectItem_def dirItem_def)
  then show ?thesis using s by simp
qed

section \<open>Properties of the listing responses\<close>

lemma htmlRows_entries:
  "filter isEntryRow (htmlRows path prev items) =
     map entryRow (filter (\<lambda>item. \<not> (Name item = ''favicon.ico'' \<and> path = ''/'')) items)"
  by (induction items arbitrary: prev) (auto simp: entryRow_def split: option.splits)

lemma renderReadme_no_entries:
  "renderReadme backend attrs st = (parts, out) \<Longrightarrow> filter isEntryRow parts = []"
  by (auto simp: renderReadme_def Let_def split: sum.splits)

text \<open>
  Claim C9, as amended.  Take two requests for the same directory path, neither of them a
  \<open>HEAD\<close> request, one that selects JSON (by its \<open>Accept\<close> header or by
  \<open>format=json\<close>) and one that does not, served from the same mount table and
  backend listing.  The JSON response carries the listing's entries, all of them, in
  order.  The HTML response carries one row for each of these entries in the same order,
  except that at the root path \<open>/\<close> it has no row for an entry named
  \<open>favicon.ico\<close>; the JSON response keeps that entry.
\<close>

theorem handleIndex_json_html:
  assumes "reqMethod rj \<noteq> ''HEAD''" and "reqMethod rh \<noteq> ''HEAD''"
    and "reqPath rj = path" and "reqPath rh = path"
    and "valuesGet (reqHeader rj) ''Accept'' = ''application/json''
         \<or> valuesGet (reqQuery rj) ''format'' = ''json''"
    and "valuesGet (reqHeader rh) ''Accept'' \<noteq> ''application/json''"
    and "valuesGet (reqQuery rh) ''format'' \<noteq> ''json''"
    and "items = listingItems flags lib (linksFromMountPoints mountPoints path)
                   (fst (linksFromStorage flags backend mountPoints path))"
  shows "body (fst (handleIndex flags lib std backend mountPoints now rj st)) = JsonBody items \<and>
    (\<exists>parts. body (fst (handleIndex flags lib std backend mountPoints now' rh st')) = HtmlBody parts \<and>
       filter isEntryRow parts =
         map entryRow (if path = ''/'' then filter (\<lambda>item. Name item \<noteq> ''favicon.ico'') items
                       else items))"
proof -
  have j: "body (fst (handleIndex flags lib std backend mountPoints now rj st)) = JsonBody items"
    using assms(1,3,5,8)
    by (auto simp: handleIndex_def Let_def split: prod.splits)
  have e: "filter isEntryRow (htmlRows path None items) =
         map entryRow (if path = ''/'' then filter (\<lambda>item. Name item \<noteq> ''favicon.ico'') items
                       else items)"
    by (simp add: htmlRows_entries)
  obtain sl ro where ls: "linksFromStorage flags backend mountPoints path = (sl, ro)"
    by (cases "linksFromStorage flags backend mountPoints path")
  have it: "items = listingItems flags lib (linksFromMountPoints mountPoints path) sl"
    using assms(8) ls by simp
  have h: "\<exists>parts. body (fst (handleIndex flags lib std backend mountPoints now' rh st')) = HtmlBody parts \<and>
       filter isEntryRow parts = filter isEntryRow (htmlRows path None items)"
  proof (cases "\<exists>attrs. ro = Some attrs \<and> readme flags")
    case True
    then obtain attrs where ro: "ro = Some attrs" and rd: "readme flags" by blast
    obtain parts out where rr: "renderReadme backend attrs st' = (parts, out)"
      by (cases "renderReadme backend attrs st'")
    have "body (fst (handleIndex flags lib std backend mountPoints now' rh st')) =
        HtmlBody (([PageHtml, MainOpen] @ (if path \<noteq> ''/'' then [ParentRow] else [])
           @ htmlRows path None items @ [MainClose]) @ [FooterOpen] @ parts @ [FooterClose])"
      using assms(2,4,6,7) ls it ro rd rr by (simp add: handleIndex_def Let_def)
    then show ?thesis using renderReadme_no_entries[OF rr] by simp
  next
    case False
    have "body (fst (handleIndex flags lib std backend mountPoints now' rh st')) =
        HtmlBody ([PageHtml, MainOpen] @ (if path \<noteq> ''/'' then [ParentRow] else [])
           @ htmlRows path None items @ [MainClose])"
      using assms(2,4,6,7) ls it False by (cases ro) (simp_all add: handleIndex_def Let_def)
    then show ?thesis by simp
  qed
  show ?thesis using j h e by simp
qed


theorem handleIndex_json_html_witness:
  "body (fst (handleIndex \<lparr>readme = False, skipReadme = False, versionSort = False\<rparr>
     sampleVersionLib sampleStdlib
     (sampleBackend [sampleObject ''docs/favicon.ico'' ''e1'' 5, sampleObject ''docs/a.txt'' ''e2'' 6])
     [\<lparr>Path = ''/'', Bucket = ''bucket'', Prefix = []\<rparr>] 0
     (sampleRequest ''GET'' ''/docs/'' [(''Accept'', ''application/json'')]) emptyCache))
   = JsonBody [objectItem ''docs/'' (sampleObject ''docs/a.txt'' ''e2'' 6),
               objectItem ''docs/'' (sampleObject ''docs/favicon.ico'' ''e1'' 5)] \<and>
   body (fst (handleIndex \<lparr>readme = False, skipReadme = False, versionSort = False\<rparr>
     sampleVersionLib sampleStdlib
     (sampleBackend [sampleObject ''docs/favicon.ico'' ''e1'' 5, sampleObject ''docs/a.txt'' ''e2'' 6])
     [\<lparr>Path = ''/'', Bucket = ''bucket'', Prefix = []\<rparr>] 0
     (sampleRequest ''GET'' ''/docs/'' []) emptyCache))
   = HtmlBody [PageHtml, MainOpen, ParentRow,
               entryRow (objectItem ''docs/'' (sampleObject ''docs/a.txt'' ''e2'' 6)),
               entryRow (objectItem ''docs/'' (sampleObject ''docs/favicon.ico'' ''e1'' 5)),
               MainClose]"
proof -
  let ?f = "\<lparr>readme = False, skipReadme = False, versionSort = False\<rparr>"
  let ?b = "sampleBackend [sampleObject ''docs/favicon.ico'' ''e1'' 5, sampleObject ''docs/a.txt'' ''e2'' 6]"
  let ?m = "[\<lparr>Path = ''/'', Bucket = ''bucket'', Prefix = []\<rparr>]"
  let ?rj = "sampleRequest ''GET'' ''/docs/'' [(''Accept'', ''application/json'')]"
  let ?rh = "sampleRequest ''GET'' ''/docs/'' []"
  let ?items = "listingItems ?f sampleVersionLib (linksFromMountPoints ?m ''/docs/'')
                   (fst (linksFromStorage ?f ?b ?m ''/docs/''))"
  have 1: "reqMethod ?rj \<noteq> ''HEAD''" "reqMethod ?rh \<noteq> ''HEAD''"
    "reqPath ?rj = ''/docs/''" "reqPath ?rh = ''/docs/''"
    by (simp_all add: sampleRequest_def)
  have 2: "valuesGet (reqHeader ?rj) ''Accept'' = ''application/json''
         \<or> valuesGet (reqQuery ?rj) ''format'' = ''json''"
    by (simp add: sampleRequest_def valuesGet_def)
  have 3: "valuesGet (reqHeader ?rh) ''Accept'' \<noteq> ''application/json''"
    "valuesGet (reqQuery ?rh) ''format'' \<noteq> ''json''"
    by (simp_all add: sampleRequest_def valuesGet_def)
  have i: "?items = [objectItem ''docs/'' (sampleObject ''docs/a.txt'' ''e2'' 6),
               objectItem ''docs/'' (sampleObject ''docs/favicon.ico'' ''e1'' 5)]"
    by code_simp
  have h: "body (fst (handleIndex ?f sampleVersionLib sampleStdlib ?b ?m 0 ?rh emptyCache))
     = HtmlBody [PageHtml, MainOpen, ParentRow,
               entryRow (objectItem ''docs/'' (sampleObject ''docs/a.txt'' ''e2'' 6)),
               entryRow (objectItem ''docs/'' (sampleObject ''docs/favicon.ico'' ''e1'' 5)),
               MainClose]"
    by code_simp
  have "body (fst (handleIndex ?f sampleVersionLib sampleStdlib ?b ?m 0 ?rj emptyCache)) = JsonBody ?items"
    using handleIndex_json_html[OF 1 2 3 refl, where flags = ?f and lib = sampleVersionLib
        and mountPoints = ?m and backend = ?b and std = sampleStdlib and now = 0
        and st = emptyCache and now' = 0 and st' = emptyCache]
    by blast
  then show ?thesis unfolding i using h by simp
qed

text \<open>
  The claim as stated has the same entries at the same positions in both responses, also
  at the root.  There the JSON response lists \<open>favicon.ico\<close> and the HTML response
  does not.
\<close>

theorem handleIndex_json_html_counterexample:
  "body (fst (handleIndex \<lparr>readme = False, skipReadme = False, versionSort = False\<rparr>
     sampleVersionLib sampleStdlib
     (sampleBackend [sampleObject ''favicon.ico'' ''e1'' 5, sampleObject ''a.txt'' ''e2'' 6])
     [\<lparr>Path = ''/'', Bucket = ''bucket'', Prefix = []\<rparr>] 0
     (sampleRequest ''GET'' ''/'' [(''Accept'', ''application/json'')]) emptyCache))
   = JsonBody [objectItem [] (sampleObject ''a.txt'' ''e2'' 6),
               objectItem [] (sampleObject ''favicon.ico'' ''e1'' 5)] \<and>
   body (fst (handleIndex \<lparr>readme = False, skipReadme = False, versionSort = False\<rparr>
     sampleVersionLib sampleStdlib
     (sampleBackend [sampleObject ''favicon.ico'' ''e1'' 5, sampleObject ''a.txt'' ''e2'' 6])
     [\<lparr>Path = ''/'', Bucket = ''bucket'', Prefix = []\<rparr>] 0
     (sampleRequest ''GET'' ''/'' []) emptyCache))
   = HtmlBody [PageHtml, MainOpen,
               entryRow (objectItem [] (sampleObject ''a.txt'' ''e2'' 6)), MainClose]"
  by code_simp

text \<open>
  A listing end to end: the mount \<open>/a/\<close> on a bucket with empty prefix, whose listing
  yields the common prefix \<open>sub/\<close> and the object \<open>file.txt\<close>.  The request for
  \<open>/a/\<close> lists the object first and the directory second.
\<close>

theorem handleIndex_end_to_end:
  "body (fst (handleIndex \<lparr>readme = False, skipReadme = False, versionSort = False\<rparr>
     sampleVersionLib sampleStdlib
     (sampleBackend [samplePrefix ''sub/'', sampleObject ''file.txt'' ''abc'' 5])
     [\<lparr>Path = ''/a/'', Bucket = ''bucketX'', Prefix = []\<rparr>] 0
     (sampleRequest ''GET'' ''/a/'' [(''Accept'', ''application/json'')]) emptyCache))
   = JsonBody [objectItem [] (sampleObject ''file.txt'' ''abc'' 5), dirItem ''sub/'']"
  by code_simp

section \<open>Properties of the readme cache\<close>

lemma sum_list_entryLen_upd:
  "key \<notin> set keys \<Longrightarrow>
   (\<Sum>k\<leftarrow>keys. entryLen ((cache(key := v)) k)) = (\<Sum>k\<leftarrow>keys. entryLen (cache k))"
  by (induction keys) auto

lemma purge_inv:
  assumes "distinct keys" and "sz = (\<Sum>k\<leftarrow>keys. entryLen (cache k))"
  shows "\<exists>n. snd (snd (purge sz cache keys)) = drop n keys \<and>
     fst (purge sz cache keys) = (\<Sum>k\<leftarrow>drop n keys. entryLen (cache k)) \<and>
     (\<forall>k. fst (snd (purge sz cache keys)) k = (if k \<in> set (take n keys) then None else cache k)) \<and>
     (fst (purge sz cache keys) \<le> rmCacheMaxSize \<or> n = length keys) \<and> n \<le> length keys"
  using assms
proof (induction keys arbitrary: sz cache)
  case Nil
  then show ?case by simp
next
  case (Cons key keys)
  show ?case
  proof (cases "sz > rmCacheMaxSize")
    case False
    then have "purge sz cache (key # keys) = (sz, cache, key # keys)" by simp
    then show ?thesis using Cons.prems(2) False by (intro exI[of _ 0]) simp
  next
    case True
    let ?sz = "sz - entryLen (cache key)"
    let ?cache = "cache(key := None)"
    have p: "purge sz cache (key # keys) = purge ?sz ?cache keys"
      using True by (simp add: entryLen_def)
    have k: "key \<notin> set keys" and d: "distinct keys" using Cons.prems(1) by simp_all
    have s: "?sz = (\<Sum>k\<leftarrow>keys. entryLen (?cache k))"
      using Cons.prems(2) sum_list_entryLen_upd[OF k, of cache None] by simp
    from Cons.IH[OF d s] obtain n where
      n1: "snd (snd (purge ?sz ?cache keys)) = drop n keys" and
      n2: "fst (purge ?sz ?cache keys) = (\<Sum>k\<leftarrow>drop n keys. entryLen (?cache k))" and
      n3: "\<forall>k. fst (snd (purge ?sz ?cache keys)) k = (if k \<in> set (take n keys) then None else ?cache k)" and
      n4: "fst (purge ?sz ?cache keys) \<le> rmCacheMaxSize \<or> n = length keys" and
      n5: "n \<le> length keys"
      by blast
    have kd: "key \<notin> set (drop n keys)" using k by (meson in_set_dropD)
    have n2': "fst (purge ?sz ?cache keys) = (\<Sum>k\<leftarrow>drop n keys. entryLen (cache k))"
      using n2 sum_list_entryLen_upd[OF kd, of cache None] by simp
    show ?thesis
      unfolding p using n1 n2' n3 n4 n5 by (intro exI[of _ "Suc n"]) auto
  qed
qed


lemma purgeCache_inv:
  assumes d: "distinct (rmKeys st)"
    and dom: "\<forall>key. rmCache st key \<noteq> None \<longleftrightarrow> key \<in> set (rmKeys st)"
    and sz: "rmCacheSize st = (\<Sum>key\<leftarrow>rmKeys st. entryLen (rmCache st key))"
  shows "cacheInv (purgeCache st) \<and> rmCacheSize (purgeCache st) \<le> rmCacheMaxSize \<and>
         (\<exists>n. rmKeys (purgeCache st) = drop n (rmKeys st))"
proof -
  let ?ks = "rmKeys st"
  let ?p = "purge (rmCacheSize st) (rmCache st) ?ks"
  from purge_inv[OF d sz] obtain n where
    n1: "snd (snd ?p) = drop n ?ks" and
    n2: "fst ?p = (\<Sum>k\<leftarrow>drop n ?ks. entryLen (rmCache st k))" and
    n3: "\<forall>k. fst (snd ?p) k = (if k \<in> set (take n ?ks) then None else rmCache st k)" and
    n4: "fst ?p \<le> rmCacheMaxSize \<or> n = length ?ks" and
    n5: "n \<le> length ?ks"
    by blast
  have pc: "rmCacheSize (purgeCache st) = fst ?p" "rmCache (purgeCache st) = fst (snd ?p)"
    "rmKeys (purgeCache st) = snd (snd ?p)"
    by (simp_all add: purgeCache_def split: prod.splits)
  have dj: "set (take n ?ks) \<inter> set (drop n ?ks) = {}"
    using d by (metis append_take_drop_id distinct_append)
  have un: "set (take n ?ks) \<union> set (drop n ?ks) = set ?ks"
    by (metis append_take_drop_id set_append)
  have same: "fst (snd ?p) k = rmCache st k" if "k \<in> set (drop n ?ks)" for k
    using n3 dj that by auto
  have "(\<Sum>k\<leftarrow>drop n ?ks. entryLen (fst (snd ?p) k)) = (\<Sum>k\<leftarrow>drop n ?ks. entryLen (rmCache st k))"
    by (rule arg_cong[where f = sum_list], rule map_cong) (simp_all add: same)
  then have i3: "rmCacheSize (purgeCache st) =
      (\<Sum>key\<leftarrow>rmKeys (purgeCache st). entryLen (rmCache (purgeCache st) key))"
    unfolding pc n1 using n2 by simp
  have i2: "rmCache (purgeCache st) key \<noteq> None \<longleftrightarrow> key \<in> set (rmKeys (purgeCache st))" for key
    unfolding pc n1 using n3 dom dj un by auto
  have i1: "distinct (rmKeys (purgeCache st))"
    unfolding pc n1 using d by simp
  have le: "rmCacheSize (purgeCache st) \<le> rmCacheMaxSize"
  proof (cases "n = length ?ks")
    case True
    then have "fst ?p = 0" using n2 by simp
    then show ?thesis unfolding pc by (simp add: rmCacheMaxSize_def)
  next
    case False
    then show ?thesis unfolding pc using n4 by simp
  qed
  have ex: "\<exists>n. rmKeys (purgeCache st) = drop n (rmKeys st)"
    using n1 pc(3) by auto
  show ?thesis
    unfolding cacheInv_def using i1 i2 i3 le ex by simp
qed

lemma fetchReadme_state:
  "foState (fetchReadme backend attrs st) =
     (case newReader backend (oaBucket attrs) (oaName attrs) of
        Some reader \<Rightarrow>
          if rmCache st (cacheKey attrs) = None \<and> \<not> rdFails reader
          then purgeCache \<lparr>rmCacheSize = rmCacheSize st + int (length (rdData reader)),
                 rmCache = (rmCache st)(cacheKey attrs :=
                    Some \<lparr>markdown = rdData reader, timestamp = oaUpdated attrs\<rparr>),
                 rmKeys = rmKeys st @ [cacheKey attrs]\<rparr>
          else if (\<exists>entry. rmCache st (cacheKey attrs) = Some entry \<and> oaUpdated attrs < timestamp entry)
                  \<and> \<not> rdFails reader
          then st\<lparr>rmCache := (rmCache st)(cacheKey attrs :=
                    Some \<lparr>markdown = rdData reader, timestamp = oaUpdated attrs\<rparr>)\<rparr>
          else st
      | None \<Rightarrow> st)"
  by (cases st) (auto simp: fetchReadme_def Let_def split: option.splits)

text \<open>
  Claim C8.  \<open>fetchReadme\<close> opens no reader on the backend exactly when the cache holds
  an entry for the key whose stored timestamp is not after the timestamp supplied; it then
  returns the cached content and leaves the cache as it is.  This covers every supplied
  timestamp equal to or later than the stored one, so an object updated after it was
  cached is still served from the cache.  When the key is absent, or the supplied
  timestamp is strictly before the stored one, the backend is read.
\<close>

theorem fetchReadme_cache_hit:
  "(foReads (fetchReadme backend attrs st) = [] \<longleftrightarrow>
      (\<exists>entry. rmCache st (cacheKey attrs) = Some entry \<and> timestamp entry \<le> oaUpdated attrs)) \<and>
   (\<forall>entry. rmCache st (cacheKey attrs) = Some entry \<and> timestamp entry \<le> oaUpdated attrs \<longrightarrow>
      fetchReadme backend attrs st = \<lparr>foResult = Inr (markdown entry), foReads = [], foState = st\<rparr>) \<and>
   (rmCache st (cacheKey attrs) = None \<or>
      (\<exists>entry. rmCache st (cacheKey attrs) = Some entry \<and> oaUpdated attrs < timestamp entry) \<longrightarrow>
      foReads (fetchReadme backend attrs st) = [(oaBucket attrs, oaName attrs)])"
proof -
  have hit: "fetchReadme backend attrs st = \<lparr>foResult = Inr (markdown entry), foReads = [], foState = st\<rparr>"
    if "rmCache st (cacheKey attrs) = Some entry" "timestamp entry \<le> oaUpdated attrs" for entry
    using that by (simp add: fetchReadme_def Let_def)
  have miss: "foReads (fetchReadme backend attrs st) = [(oaBucket attrs, oaName attrs)]"
    if "rmCache st (cacheKey attrs) = None \<or>
      (\<exists>entry. rmCache st (cacheKey attrs) = Some entry \<and> oaUpdated attrs < timestamp entry)"
    using that by (auto simp: fetchReadme_def Let_def split: option.splits)
  have iff: "foReads (fetchReadme backend attrs st) = [] \<longleftrightarrow>
      (\<exists>entry. rmCache st (cacheKey attrs) = Some entry \<and> timestamp entry \<le> oaUpdated attrs)"
  proof (cases "rmCache st (cacheKey attrs)")
    case None
    then show ?thesis using miss by simp
  next
    case (Some entry)
    show ?thesis
    proof (cases "timestamp entry \<le> oaUpdated attrs")
      case True
      then show ?thesis using hit[OF Some] Some by simp
    next
      case False
      then have "foReads (fetchReadme backend attrs st) = [(oaBucket attrs, oaName attrs)]"
        using miss Some by simp
      then show ?thesis using False Some by simp
    qed
  qed
  show ?thesis using hit miss iff by blast
qed

theorem fetchReadme_cache_hit_witness:
  "fetchReadme (contentBackend ''new'') (sampleObject ''README.md'' ''e2'' 9)
     (foState (fetchReadme (contentBackend ''old'') (sampleObject ''README.md'' ''e1'' 5) emptyCache))
   = \<lparr>foResult = Inr ''old'', foReads = [],
      foState = foState (fetchReadme (contentBackend ''old'') (sampleObject ''README.md'' ''e1'' 5) emptyCache)\<rparr>"
proof -
  let ?st = "foState (fetchReadme (contentBackend ''old'') (sampleObject ''README.md'' ''e1'' 5) emptyCache)"
  have c: "rmCache ?st (cacheKey (sampleObject ''README.md'' ''e2'' 9)) =
      Some \<lparr>markdown = ''old'', timestamp = 5\<rparr>"
    by code_simp
  have t: "timestamp \<lparr>markdown = ''old'', timestamp = 5\<rparr> \<le> oaUpdated (sampleObject ''README.md'' ''e2'' 9)"
    by (simp add: sampleObject_def)
  show ?thesis
    using fetchReadme_cache_hit[of "contentBackend ''new''" "sampleObject ''README.md'' ''e2'' 9" ?st] c t
    by simp
qed

text \<open>
  Claim C7 fails on an overwrite.  The key is cached with one byte of content at
  timestamp 10; a fetch of the same key with the earlier timestamp 5 reads 16777217 bytes
  from the backend and replaces the entry.  The running total is not adjusted and no purge
  runs: afterwards the total is still 1, while the cache holds 16777217 bytes, more than
  the budget \<open>rmCacheMaxSize\<close>.
\<close>

theorem fetchReadme_overwrite_size:
  "rmCacheSize (foState (fetchReadme (contentBackend (replicate 16777217 CHR ''x''))
       (sampleObject ''README.md'' ''e1'' 5)
       (foState (fetchReadme (contentBackend ''a'') (sampleObject ''README.md'' ''e2'' 10) emptyCache)))) = 1 \<and>
   rmKeys (foState (fetchReadme (contentBackend (replicate 16777217 CHR ''x''))
       (sampleObject ''README.md'' ''e1'' 5)
       (foState (fetchReadme (contentBackend ''a'') (sampleObject ''README.md'' ''e2'' 10) emptyCache))))
     = [''bucket/README.md''] \<and>
   map_option (\<lambda>e. int (length (markdown e)))
     (rmCache (foState (fetchReadme (contentBackend (replicate 16777217 CHR ''x''))
       (sampleObject ''README.md'' ''e1'' 5)
       (foState (fetchReadme (contentBackend ''a'') (sampleObject ''README.md'' ''e2'' 10) emptyCache))))
       ''bucket/README.md'') = Some 16777217 \<and>
   rmCacheMaxSize < 16777217"
proof -
  let ?st = "foState (fetchReadme (contentBackend ''a'') (sampleObject ''README.md'' ''e2'' 10) emptyCache)"
  have k: "cacheKey (sampleObject ''README.md'' ''e1'' 5) = ''bucket/README.md''"
    "cacheKey (sampleObject ''README.md'' ''e2'' 10) = ''bucket/README.md''"
    by (simp_all add: cacheKey_def sampleObject_def)
  have st: "?st = \<lparr>rmCacheSize = 1,
       rmCache = (\<lambda>key. None)(''bucket/README.md'' := Some \<lparr>markdown = ''a'', timestamp = 10\<rparr>),
       rmKeys = [''bucket/README.md'']\<rparr>"
    by (simp add: fetchReadme_def Let_def k emptyCache_def contentBackend_def purgeCache_def
        rmCacheMaxSize_def) (simp add: sampleObject_def)
  show ?thesis
    unfolding st
    by (simp add: fetchReadme_def Let_def k contentBackend_def rmCacheMaxSize_def)
       (simp add: sampleObject_def)
qed

text \<open>
  Apart from the overwrite, the bookkeeping is right.  The empty cache is in order: its
  queue lists the cached keys once each and its total is the sum of their lengths.  When
  the cache is in order and within the budget, a fetch that is served from the cache or
  that inserts a new key (no entry is overwritten) leaves it in order and within the
  budget, and the queue afterwards is the old queue, or the old queue with the new key
  at its end and without some keys from its front.
\<close>

theorem fetchReadme_invariant:
  "cacheInv emptyCache \<and>
   (cacheInv st \<and> rmCacheSize st \<le> rmCacheMaxSize \<and>
    (rmCache st (cacheKey attrs) = None \<or>
     (\<exists>entry. rmCache st (cacheKey attrs) = Some entry \<and> timestamp entry \<le> oaUpdated attrs)) \<longrightarrow>
      cacheInv (foState (fetchReadme backend attrs st)) \<and>
      rmCacheSize (foState (fetchReadme backend attrs st)) \<le> rmCacheMaxSize \<and>
      (rmKeys (foState (fetchReadme backend attrs st)) = rmKeys st \<or>
       (\<exists>n. rmKeys (foState (fetchReadme backend attrs st)) = drop n (rmKeys st @ [cacheKey attrs]))))"
proof -
  have base: "cacheInv emptyCache"
    by (simp add: cacheInv_def emptyCache_def)
  have step: "cacheInv (foState (fetchReadme backend attrs st)) \<and>
      rmCacheSize (foState (fetchReadme backend attrs st)) \<le> rmCacheMaxSize \<and>
      (rmKeys (foState (fetchReadme backend attrs st)) = rmKeys st \<or>
       (\<exists>n. rmKeys (foState (fetchReadme backend attrs st)) = drop n (rmKeys st @ [cacheKey attrs])))"
    if a: "cacheInv st \<and> rmCacheSize st \<le> rmCacheMaxSize \<and>
    (rmCache st (cacheKey attrs) = None \<or>
     (\<exists>entry. rmCache st (cacheKey attrs) = Some entry \<and> timestamp entry \<le> oaUpdated attrs))"
  proof (cases "\<exists>reader. newReader backend (oaBucket attrs) (oaName attrs) = Some reader \<and>
      rmCache st (cacheKey attrs) = None \<and> \<not> rdFails reader")
    case False
    then have "foState (fetchReadme backend attrs st) = st"
      using a by (auto simp: fetchReadme_state split: option.splits)
    then show ?thesis using a by simp
  next
    case True
    then obtain reader where r: "newReader backend (oaBucket attrs) (oaName attrs) = Some reader"
      and n: "rmCache st (cacheKey attrs) = None" and f: "\<not> rdFails reader"
      by blast
    let ?key = "cacheKey attrs"
    let ?st1 = "\<lparr>rmCacheSize = rmCacheSize st + int (length (rdData reader)),
                   rmCache = (rmCache st)(?key :=
                      Some \<lparr>markdown = rdData reader, timestamp = oaUpdated attrs\<rparr>),
                   rmKeys = rmKeys st @ [?key]\<rparr>"
    have st': "foState (fetchReadme backend attrs st) = purgeCache ?st1"
      using r n f by (simp add: fetchReadme_state)
    have d0: "distinct (rmKeys st)"
      and dom0: "\<forall>key. rmCache st key \<noteq> None \<longleftrightarrow> key \<in> set (rmKeys st)"
      and sz0: "rmCacheSize st = (\<Sum>key\<leftarrow>rmKeys st. entryLen (rmCache st key))"
      using a unfolding cacheInv_def by blast+
    have k: "?key \<notin> set (rmKeys st)" using dom0 n by blast
    have d: "distinct (rmKeys ?st1)" using d0 k by simp
    have dom: "\<forall>key. rmCache ?st1 key \<noteq> None \<longleftrightarrow> key \<in> set (rmKeys ?st1)"
      using dom0 by auto
    have sz: "rmCacheSize ?st1 = (\<Sum>key\<leftarrow>rmKeys ?st1. entryLen (rmCache ?st1 key))"
      using sz0 sum_list_entryLen_upd[OF k, of "rmCache st"
          "Some \<lparr>markdown = rdData reader, timestamp = oaUpdated attrs\<rparr>"]
      by (simp add: entryLen_def)
    from purgeCache_inv[OF d dom sz] show ?thesis
      unfolding st' by auto
  qed
  show ?thesis using base step by blast
qed

theorem fetchReadme_invariant_witness:
  "cacheInv (foState (fetchReadme (contentBackend ''old'') (sampleObject ''README.md'' ''e1'' 5) emptyCache)) \<and>
   rmCacheSize (foState (fetchReadme (contentBackend ''old'') (sampleObject ''README.md'' ''e1'' 5) emptyCache))
     \<le> rmCacheMaxSize"
proof -
  have e: "rmCacheSize emptyCache \<le> rmCacheMaxSize"
    "rmCache emptyCache (cacheKey (sampleObject ''README.md'' ''e1'' 5)) = None"
    by (simp_all add: emptyCache_def rmCacheMaxSize_def)
  show ?thesis
    using fetchReadme_invariant[of emptyCache "sampleObject ''README.md'' ''e1'' 5" "contentBackend ''old''"] e
    by blast
qed

section \<open>Properties of the conditional requests\<close>

lemma serveObject_status: "status (serveObject std backend now r bucket name attrs h) \<noteq> 304"
  by (simp add: serveObject_def Let_def split: option.splits prod.splits)

lemma handle_object:
  assumes "reqMethod r = ''GET'' \<or> reqMethod r = ''HEAD''" and "\<not> suffix ''/'' (reqPath r)"
  shows "fst (handle flags lib std backend mountPoints now r st) =
         handleObject std backend mountPoints now r"
  using assms by (auto simp: handle_def)

text \<open>
  Claim C3.  Take a \<open>GET\<close> or \<open>HEAD\<close> request for an object whose mount resolves
  and whose attributes the backend returns.  If its \<open>If-None-Match\<close> header is there
  (its value is not empty) and, without a leading \<open>W/\<close> and without the quotes around
  it, equals the object's hash, the response is 304 with no body.  If no
  \<open>If-None-Match\<close> header is there and the \<open>If-Modified-Since\<close> header parses to
  a time, the response is 304 with no body whenever the object's modification time,
  cut to whole seconds, is not after that time; in particular when the two are equal.
\<close>

theorem handleObject_not_modified:
  assumes "reqMethod r = ''GET'' \<or> reqMethod r = ''HEAD''" and "\<not> suffix ''/'' (reqPath r)"
    and "findMountPoint mountPoints (reqPath r) = Some mountPoint"
    and "objectAttrs backend (Bucket mountPoint)
           (Prefix mountPoint @ trimPrefix (reqPath r) (Path mountPoint)) = Some attrs"
    and "resp = fst (handle flags lib std backend mountPoints now r st)"
  shows "(valuesGet (reqHeader r) ''If-None-Match'' \<noteq> [] \<and>
          stripValidator (valuesGet (reqHeader r) ''If-None-Match'') = oaEtag attrs \<longrightarrow>
            status resp = 304 \<and> body resp = NoBody) \<and>
         (valuesGet (reqHeader r) ''If-None-Match'' = [] \<longrightarrow>
            (\<forall>t. parseHTTPTime std (valuesGet (reqHeader r) ''If-Modified-Since'') = Some t \<and>
                 \<not> truncateTime (oaUpdated attrs) second > t \<longrightarrow>
               status resp = 304 \<and> body resp = NoBody) \<and>
            (parseHTTPTime std (valuesGet (reqHeader r) ''If-Modified-Since'') =
                 Some (truncateTime (oaUpdated attrs) second) \<longrightarrow>
               status resp = 304 \<and> body resp = NoBody))"
proof -
  have resp: "resp = handleObject std backend mountPoints now r"
    using assms(5) handle_object[OF assms(1,2)] by simp
  show ?thesis
    unfolding resp using assms(3,4)
    by (simp add: handleObject_def Let_def notModified_def)
qed

theorem handleObject_not_modified_witness:
  "status (fst (handle \<lparr>readme = False, skipReadme = False, versionSort = False\<rparr> sampleVersionLib
     sampleStdlib (sampleBackend [sampleObject ''a.txt'' ''H'' 10000000005])
     [\<lparr>Path = ''/'', Bucket = ''bucket'', Prefix = []\<rparr>] 0
     (sampleRequest ''GET'' ''/a.txt'' [(''If-None-Match'', ''W/'' @ [CHR 0x22, CHR ''H'', CHR 0x22])])
     emptyCache)) = 304 \<and>
   body (fst (handle \<lparr>readme = False, skipReadme = False, versionSort = False\<rparr> sampleVersionLib
     sampleStdlib (sampleBackend [sampleObject ''a.txt'' ''H'' 10000000005])
     [\<lparr>Path = ''/'', Bucket = ''bucket'', Prefix = []\<rparr>] 0
     (sampleRequest ''GET'' ''/a.txt'' [(''If-None-Match'', ''W/'' @ [CHR 0x22, CHR ''H'', CHR 0x22])])
     emptyCache)) = NoBody \<and>
   status (fst (handle \<lparr>readme = False, skipReadme = False, versionSort = False\<rparr> sampleVersionLib
     sampleStdlib (sampleBackend [sampleObject ''a.txt'' ''H'' 10000000005])
     [\<lparr>Path = ''/'', Bucket = ''bucket'', Prefix = []\<rparr>] 0
     (sampleRequest ''HEAD'' ''/a.txt'' [(''If-Modified-Since'', ''Mon, 01 Jan 0001 00:00:10 GMT'')])
     emptyCache)) = 304"
proof -
  let ?f = "\<lparr>readme = False, skipReadme = False, versionSort = False\<rparr>"
  let ?b = "sampleBackend [sampleObject ''a.txt'' ''H'' 10000000005]"
  let ?m = "[\<lparr>Path = ''/'', Bucket = ''bucket'', Prefix = []\<rparr>]"
  let ?mp = "\<lparr>Path = ''/'', Bucket = ''bucket'', Prefix = []\<rparr>"
  let ?r1 = "sampleRequest ''GET'' ''/a.txt'' [(''If-None-Match'', ''W/'' @ [CHR 0x22, CHR ''H'', CHR 0x22])]"
  let ?r2 = "sampleRequest ''HEAD'' ''/a.txt'' [(''If-Modified-Since'', ''Mon, 01 Jan 0001 00:00:10 GMT'')]"
  let ?o = "sampleObject ''a.txt'' ''H'' 10000000005"
  have m: "reqMethod ?r1 = ''GET'' \<or> reqMethod ?r1 = ''HEAD''"
    "reqMethod ?r2 = ''GET'' \<or> reqMethod ?r2 = ''HEAD''"
    by (simp_all add: sampleRequest_def)
  have s: "\<not> suffix ''/'' (reqPath ?r1)" "\<not> suffix ''/'' (reqPath ?r2)"
    by code_simp+
  have f: "findMountPoint ?m (reqPath ?r1) = Some ?mp" "findMountPoint ?m (reqPath ?r2) = Some ?mp"
    by code_simp+
  have a: "objectAttrs ?b (Bucket ?mp) (Prefix ?mp @ trimPrefix (reqPath ?r1) (Path ?mp)) = Some ?o"
    "objectAttrs ?b (Bucket ?mp) (Prefix ?mp @ trimPrefix (reqPath ?r2) (Path ?mp)) = Some ?o"
    by code_simp+
  have i: "valuesGet (reqHeader ?r1) ''If-None-Match'' \<noteq> [] \<and>
          stripValidator (valuesGet (reqHeader ?r1) ''If-None-Match'') = oaEtag ?o"
    by code_simp
  have j: "valuesGet (reqHeader ?r2) ''If-None-Match'' = []"
    "parseHTTPTime sampleStdlib (valuesGet (reqHeader ?r2) ''If-Modified-Since'') =
       Some (truncateTime (oaUpdated ?o) second)"
    by code_simp+
  have 1: "status (fst (handle ?f sampleVersionLib sampleStdlib ?b ?m 0 ?r1 emptyCache)) = 304 \<and>
           body (fst (handle ?f sampleVersionLib sampleStdlib ?b ?m 0 ?r1 emptyCache)) = NoBody"
    using handleObject_not_modified[OF m(1) s(1) f(1) a(1) refl, where flags = ?f
        and lib = sampleVersionLib and std = sampleStdlib and now = 0 and st = emptyCache] i
    by blast
  have 2: "status (fst (handle ?f sampleVersionLib sampleStdlib ?b ?m 0 ?r2 emptyCache)) = 304"
    using handleObject_not_modified[OF m(2) s(2) f(2) a(2) refl, where flags = ?f
        and lib = sampleVersionLib and std = sampleStdlib and now = 0 and st = emptyCache] j
    by blast
  show ?thesis using 1 2 by simp
qed

text \<open>
  What \<open>handleObject\<close> does with a request whose \<open>If-None-Match\<close> header is there
  and, stripped as above, differs from the object's hash: it goes on to the
  \<open>If-Modified-Since\<close> header.  When that parses to a time that is not before the
  object's modification time cut to whole seconds, the response is 304 with no body.
  When it is absent or does not parse, or parses to an earlier time, the full response is
  sent (the headers and, for \<open>GET\<close>, the content), and its status is not 304.
\<close>

theorem handleObject_mismatch:
  assumes "reqMethod r = ''GET'' \<or> reqMethod r = ''HEAD''" and "\<not> suffix ''/'' (reqPath r)"
    and "findMountPoint mountPoints (reqPath r) = Some mountPoint"
    and "name = Prefix mountPoint @ trimPrefix (reqPath r) (Path mountPoint)"
    and "objectAttrs backend (Bucket mountPoint) name = Some attrs"
    and "valuesGet (reqHeader r) ''If-None-Match'' \<noteq> []"
    and "stripValidator (valuesGet (reqHeader r) ''If-None-Match'') \<noteq> oaEtag attrs"
    and "resp = fst (handle flags lib std backend mountPoints now r st)"
    and "h = [(''ETag'', [CHR 0x22] @ oaEtag attrs @ [CHR 0x22]),
              (''Last-Modified'', formatHTTPTime std (oaUpdated attrs))]"
  shows "(\<forall>t. parseHTTPTime std (valuesGet (reqHeader r) ''If-Modified-Since'') = Some t \<and>
              truncateTime (oaUpdated attrs) second \<le> t \<longrightarrow>
            status resp = 304 \<and> body resp = NoBody) \<and>
         (parseHTTPTime std (valuesGet (reqHeader r) ''If-Modified-Since'') = None \<or>
          (\<exists>t. parseHTTPTime std (valuesGet (reqHeader r) ''If-Modified-Since'') = Some t \<and>
               t < truncateTime (oaUpdated attrs) second) \<longrightarrow>
            resp = serveObject std backend now r (Bucket mountPoint) name attrs h \<and>
            status resp \<noteq> 304)"
proof -
  have resp: "resp = handleObject std backend mountPoints now r"
    using assms(8) handle_object[OF assms(1,2)] by simp
  have a: "objectAttrs backend (Bucket mountPoint)
           (Prefix mountPoint @ trimPrefix (reqPath r) (Path mountPoint)) = Some attrs"
    using assms(4,5) by simp
  have 1: "status resp = 304 \<and> body resp = NoBody"
    if "parseHTTPTime std (valuesGet (reqHeader r) ''If-Modified-Since'') = Some t"
      "truncateTime (oaUpdated attrs) second \<le> t" for t
    unfolding resp using assms(3,6,7) a that
    by (simp add: handleObject_def Let_def notModified_def)
  have 2: "resp = serveObject std backend now r (Bucket mountPoint) name attrs h"
    if "parseHTTPTime std (valuesGet (reqHeader r) ''If-Modified-Since'') = None \<or>
          (\<exists>t. parseHTTPTime std (valuesGet (reqHeader r) ''If-Modified-Since'') = Some t \<and>
               t < truncateTime (oaUpdated attrs) second)"
    unfolding resp using assms(3,4,6,7,9) a that
    by (auto simp: handleObject_def Let_def)
  show ?thesis
    using 1 2 serveObject_status[of std backend now r "Bucket mountPoint" name attrs h] by metis
qed

theorem handleObject_mismatch_witness:
  "fst (handle \<lparr>readme = False, skipReadme = False, versionSort = False\<rparr> sampleVersionLib
     sampleStdlib (sampleBackend [sampleObject ''a.txt'' ''H'' 10000000005])
     [\<lparr>Path = ''/'', Bucket = ''bucket'', Prefix = []\<rparr>] 0
     (sampleRequest ''GET'' ''/a.txt'' [(''If-None-Match'', [CHR 0x22, CHR ''X'', CHR 0x22])]) emptyCache)
   = serveObject sampleStdlib (sampleBackend [sampleObject ''a.txt'' ''H'' 10000000005]) 0
       (sampleRequest ''GET'' ''/a.txt'' [(''If-None-Match'', [CHR 0x22, CHR ''X'', CHR 0x22])])
       ''bucket'' ''a.txt'' (sampleObject ''a.txt'' ''H'' 10000000005)
       [(''ETag'', [CHR 0x22, CHR ''H'', CHR 0x22]), (''Last-Modified'', ''10000000005'')] \<and>
   status (serveObject sampleStdlib (sampleBackend [sampleObject ''a.txt'' ''H'' 10000000005]) 0
       (sampleRequest ''GET'' ''/a.txt'' [(''If-None-Match'', [CHR 0x22, CHR ''X'', CHR 0x22])])
       ''bucket'' ''a.txt'' (sampleObject ''a.txt'' ''H'' 10000000005)
       [(''ETag'', [CHR 0x22, CHR ''H'', CHR 0x22]), (''Last-Modified'', ''10000000005'')]) = 200"
proof -
  let ?b = "sampleBackend [sampleObject ''a.txt'' ''H'' 10000000005]"
  let ?m = "[\<lparr>Path = ''/'', Bucket = ''bucket'', Prefix = []\<rparr>]"
  let ?mp = "\<lparr>Path = ''/'', Bucket = ''bucket'', Prefix = []\<rparr>"
  let ?r = "sampleRequest ''GET'' ''/a.txt'' [(''If-None-Match'', [CHR 0x22, CHR ''X'', CHR 0x22])]"
  let ?o = "sampleObject ''a.txt'' ''H'' 10000000005"
  have 1: "reqMethod ?r = ''GET'' \<or> reqMethod ?r = ''HEAD''"
    by (simp add: sampleRequest_def)
  have 2: "\<not> suffix ''/'' (reqPath ?r)"
    by code_simp
  have 3: "findMountPoint ?m (reqPath ?r) = Some ?mp"
    by code_simp
  have 4: "''a.txt'' = Prefix ?mp @ trimPrefix (reqPath ?r) (Path ?mp)"
    by code_simp
  have 5: "objectAttrs ?b (Bucket ?mp) ''a.txt'' = Some ?o"
    by code_simp
  have 6: "valuesGet (reqHeader ?r) ''If-None-Match'' \<noteq> []"
    by code_simp
  have 7: "stripValidator (valuesGet (reqHeader ?r) ''If-None-Match'') \<noteq> oaEtag ?o"
    by code_simp
  have 9: "[(''ETag'', [CHR 0x22, CHR ''H'', CHR 0x22]), (''Last-Modified'', ''10000000005'')] =
     [(''ETag'', [CHR 0x22] @ oaEtag ?o @ [CHR 0x22]),
      (''Last-Modified'', formatHTTPTime sampleStdlib (oaUpdated ?o))]"
    by code_simp
  have p: "parseHTTPTime sampleStdlib (valuesGet (reqHeader ?r) ''If-Modified-Since'') = None"
    by code_simp
  have b: "Bucket ?mp = ''bucket''"
    by simp
  have s: "status (serveObject sampleStdlib ?b 0 ?r ''bucket'' ''a.txt'' ?o
       [(''ETag'', [CHR 0x22, CHR ''H'', CHR 0x22]), (''Last-Modified'', ''10000000005'')]) = 200"
    by code_simp
  show ?thesis
    using handleObject_mismatch[OF 1 2 3 4 5 6 7 refl 9,
        where flags = "\<lparr>readme = False, skipReadme = False, versionSort = False\<rparr>"
        and lib = sampleVersionLib and now = 0 and st = emptyCache] p s
    unfolding b by blast
qed

text \<open>
  Claim C2.  A request whose \<open>If-None-Match\<close> header is there and, without a leading
  \<open>W/\<close> and without the quotes around it, differs from the object's hash is to get the
  full response, whatever its \<open>If-Modified-Since\<close> header says.  \<open>handleObject\<close>
  does not do so.  The object \<open>a.txt\<close> is first stored with the hash \<open>X\<close> at the
  instant 10 s: a plain \<open>GET\<close> announces the validators \<open>"X"\<close> and that instant.  It
  is stored again with the hash \<open>H\<close> half a second later.  The request that sends both
  validators back is answered 304 without a body, although the hash it names is no longer
  the object's: the failed comparison of the hashes is followed by the comparison of the
  times, and the modification time cut to whole seconds is still the one announced before.
\<close>

theorem handleObject_mismatch_stale:
  "take 2 (headerSets (fst (handle \<lparr>readme = False, skipReadme = False, versionSort = False\<rparr>
     sampleVersionLib sampleStdlib (sampleBackend [sampleObject ''a.txt'' ''X'' 10000000000])
     [\<lparr>Path = ''/'', Bucket = ''bucket'', Prefix = []\<rparr>] 0
     (sampleRequest ''GET'' ''/a.txt'' []) emptyCache))) =
     [(''ETag'', [CHR 0x22, CHR ''X'', CHR 0x22]),
      (''Last-Modified'', ''Mon, 01 Jan 0001 00:00:10 GMT'')] \<and>
   valuesGet (reqHeader (sampleRequest ''GET'' ''/a.txt''
       [(''If-None-Match'', [CHR 0x22, CHR ''X'', CHR 0x22]),
        (''If-Modified-Since'', ''Mon, 01 Jan 0001 00:00:10 GMT'')])) ''If-None-Match'' \<noteq> [] \<and>
   stripValidator [CHR 0x22, CHR ''X'', CHR 0x22] \<noteq> oaEtag (sampleObject ''a.txt'' ''H'' 10500000000) \<and>
   status (fst (handle \<lparr>readme = False, skipReadme = False, versionSort = False\<rparr>
     sampleVersionLib sampleStdlib (sampleBackend [sampleObject ''a.txt'' ''H'' 10500000000])
     [\<lparr>Path = ''/'', Bucket = ''bucket'', Prefix = []\<rparr>] 0
     (sampleRequest ''GET'' ''/a.txt'' [(''If-None-Match'', [CHR 0x22, CHR ''X'', CHR 0x22]),
        (''If-Modified-Since'', ''Mon, 01 Jan 0001 00:00:10 GMT'')]) emptyCache)) = 304 \<and>
   body (fst (handle \<lparr>readme = False, skipReadme = False, versionSort = False\<rparr>
     sampleVersionLib sampleStdlib (sampleBackend [sampleObject ''a.txt'' ''H'' 10500000000])
     [\<lparr>Path = ''/'', Bucket = ''bucket'', Prefix = []\<rparr>] 0
     (sampleRequest ''GET'' ''/a.txt'' [(''If-None-Match'', [CHR 0x22, CHR ''X'', CHR 0x22]),
        (''If-Modified-Since'', ''Mon, 01 Jan 0001 00:00:10 GMT'')]) emptyCache)) = NoBody"
  by code_simp
end
